theory Spec2Isabelle
  imports Main
begin

section \<open>The USCL lexer (src/lexer.py)\<close>

text \<open>
  A shallow embedding of \<^verbatim>\<open>class Lexer\<close>. The lexer object is a record that every
  method takes and returns; a \<^verbatim>\<open>while\<close> loop is a recursive function with a
  termination proof; the \<^verbatim>\<open>ValueError\<close> that \<^verbatim>\<open>int()\<close> and \<^verbatim>\<open>float()\<close> can raise
  is the left summand of the result.

  Characters. A Python \<^verbatim>\<open>str\<close> is a sequence of Unicode code points. The model's
  alphabet is \<open>char\<close>, read as the code points U+0000 to U+00FF (one \<open>char\<close> is one code
  point, so \<open>length\<close> counts what \<^verbatim>\<open>len\<close> counts); code points above U+00FF are outside
  the model. The predicates \<^verbatim>\<open>str.isdigit\<close>, \<^verbatim>\<open>str.isalpha\<close> and \<^verbatim>\<open>str.isalnum\<close> are the
  host's; they are written out below for this range from the Unicode character database,
  as the language reference defines them.
\<close>

subsection \<open>Host string predicates and numeric parsing\<close>

definition cp :: "char \<Rightarrow> nat" where
  "cp c = of_char c"

text \<open>\<^verbatim>\<open>str.isdecimal\<close>: general category Nd. Below U+0100 these are \<^verbatim>\<open>0\<close> to \<^verbatim>\<open>9\<close>.\<close>

definition isdecimal :: "char \<Rightarrow> bool" where
  "isdecimal c = (48 \<le> cp c \<and> cp c \<le> 57)"

text \<open>
  \<^verbatim>\<open>str.isdigit\<close>: Numeric-Type Digit or Decimal. Below U+0100 these are the decimal
  digits and the superscripts U+00B2, U+00B3 and U+00B9.
\<close>

definition isdigit :: "char \<Rightarrow> bool" where
  "isdigit c = (isdecimal c \<or> cp c = 178 \<or> cp c = 179 \<or> cp c = 185)"

text \<open>
  \<^verbatim>\<open>str.isnumeric\<close>: Numeric-Type Digit, Decimal or Numeric. Below U+0100 the vulgar
  fractions U+00BC to U+00BE are added.
\<close>

definition isnumeric :: "char \<Rightarrow> bool" where
  "isnumeric c = (isdigit c \<or> (188 \<le> cp c \<and> cp c \<le> 190))"

text \<open>
  \<^verbatim>\<open>str.isalpha\<close>: general category L. Below U+0100: the ASCII letters, U+00AA, U+00B5,
  U+00BA, and U+00C0 to U+00FF without the signs U+00D7 and U+00F7.
\<close>

definition isalpha :: "char \<Rightarrow> bool" where
  "isalpha c =
     ((65 \<le> cp c \<and> cp c \<le> 90) \<or> (97 \<le> cp c \<and> cp c \<le> 122)
      \<or> cp c = 170 \<or> cp c = 181 \<or> cp c = 186
      \<or> (192 \<le> cp c \<and> cp c \<le> 214) \<or> (216 \<le> cp c \<and> cp c \<le> 246)
      \<or> (248 \<le> cp c \<and> cp c \<le> 255))"

text \<open>\<^verbatim>\<open>str.isalnum\<close> is, by definition, the disjunction of the four predicates.\<close>

definition isalnum :: "char \<Rightarrow> bool" where
  "isalnum c = (isalpha c \<or> isdecimal c \<or> isdigit c \<or> isnumeric c)"

datatype error = ValueError

definition digit_value :: "char \<Rightarrow> int" where
  "digit_value c = int (cp c) - 48"

definition decimal_value :: "string \<Rightarrow> int" where
  "decimal_value text = foldl (\<lambda>acc c. 10 * acc + digit_value c) 0 text"

text \<open>
  \<^verbatim>\<open>sys.int_info.default_max_str_digits\<close>: the longest decimal numeral CPython
  (3.11 and later) converts to an integer unless the limit has been changed.
\<close>

definition int_max_str_digits :: nat where
  "int_max_str_digits = 4300"

text \<open>
  \<^verbatim>\<open>int(text)\<close> on the texts the number reader passes, which are non-empty runs of
  \<^verbatim>\<open>isdigit\<close> characters: the decimal value when every character is a decimal digit and
  there are at most \<^verbatim>\<open>int_max_str_digits\<close> of them (leading zeros count), and
  \<^verbatim>\<open>ValueError\<close> otherwise (a superscript digit is not a digit of a base-10 numeral).
  Signs, blanks and underscores, which \<^verbatim>\<open>int()\<close> also accepts, never reach it from the
  reader and are not modelled. Below the limit Python's integers are unbounded.
\<close>

definition py_int :: "string \<Rightarrow> error + int" where
  "py_int text =
     (if text \<noteq> [] \<and> list_all isdecimal text \<and> length text \<le> int_max_str_digits
      then Inr (decimal_value text)
      else Inl ValueError)"

text \<open>
  Values a token can carry. \<open>PyFloat text\<close> stands for the binary64 number
  \<^verbatim>\<open>float(text)\<close>: the rounding of the decimal numeral is the host's and stays symbolic.
\<close>

datatype pyvalue = PyInt int | PyFloat string | PyStr string | PyNone

text \<open>
  \<^verbatim>\<open>float(text)\<close> on the texts the number reader passes (a non-empty run of \<^verbatim>\<open>isdigit\<close>
  characters, a dot, a possibly empty run of \<^verbatim>\<open>isdigit\<close> characters): it parses when
  every character is a decimal digit or the dot.
\<close>

definition py_float :: "string \<Rightarrow> error + pyvalue" where
  "py_float text =
     (if list_all (\<lambda>c. isdecimal c \<or> c = CHR ''.'') text then Inr (PyFloat text)
      else Inl ValueError)"

text \<open>The slice \<^verbatim>\<open>xs[a:b]\<close> for indices \<open>0 \<le> a\<close>, \<open>0 \<le> b\<close>.\<close>

definition slice :: "'a list \<Rightarrow> nat \<Rightarrow> nat \<Rightarrow> 'a list" where
  "slice xs a b = take (b - a) (drop a xs)"

subsection \<open>Tokens\<close>

datatype TokenType =
    INTEGER | FLOAT | STRING | SYMBOL | BOOLEAN
  | DEF | LET | IF | ELSE | LAMBDA | MATCH | QUANTUM | ASYNC | AWAIT | RETURN
  | IMPORT | MODULE
  | PLUS | MINUS | STAR | SLASH | PERCENT | POW | EQ | NEQ | LT | GT | LE | GE
  | AND | OR | NOT | ASSIGN | ARROW | PIPE | DOT | COLON | SEMICOLON | COMMA
  | LPAREN | RPAREN | LBRACKET | RBRACKET | LBRACE | RBRACE
  | IDENTIFIER | NEWLINE | INDENT | DEDENT | EOF | WHITESPACE | COMMENT

datatype Token =
  Token (tok_type: TokenType) (tok_value: pyvalue) (tok_line: int) (tok_column: int)

definition KEYWORDS :: "string \<rightharpoonup> TokenType" where
  "KEYWORDS = map_of
     [(''def'', DEF), (''let'', LET), (''if'', IF), (''else'', ELSE),
      (''lambda'', LAMBDA), (''match'', MATCH), (''quantum'', QUANTUM),
      (''async'', ASYNC), (''await'', AWAIT), (''return'', RETURN),
      (''import'', IMPORT), (''module'', MODULE), (''true'', BOOLEAN),
      (''false'', BOOLEAN), (''and'', AND), (''or'', OR), (''not'', NOT)]"

text \<open>\<^verbatim>\<open>KEYWORDS.get(value, TokenType.IDENTIFIER)\<close>\<close>

definition keyword_or_identifier :: "string \<Rightarrow> TokenType" where
  "keyword_or_identifier v = (case KEYWORDS v of None \<Rightarrow> IDENTIFIER | Some t \<Rightarrow> t)"

subsection \<open>Lexer state\<close>

text \<open>
  The fields of \<^verbatim>\<open>__init__\<close>, and \<open>warnings\<close>: the \<^verbatim>\<open>logger.warning\<close> calls made so
  far, each with the character, line and column its message carries.
\<close>

record Lexer =
  source :: string
  position :: nat
  line :: int
  column :: int
  tokens :: "Token list"
  indent_stack :: "nat list"
  warnings :: "(char \<times> int \<times> int) list"

definition init :: "string \<Rightarrow> Lexer" where
  "init src = \<lparr>source = src, position = 0, line = 1, column = 1, tokens = [],
               indent_stack = [0], warnings = []\<rparr>"

text \<open>\<^verbatim>\<open>_add_token\<close>\<close>

definition add_token :: "TokenType \<Rightarrow> pyvalue \<Rightarrow> Lexer \<Rightarrow> Lexer" where
  "add_token token_type v s =
     s\<lparr>tokens := tokens s @ [Token token_type v (line s) (column s)]\<rparr>"

text \<open>\<^verbatim>\<open>self.position += n; self.column += n\<close>\<close>

definition advance :: "nat \<Rightarrow> Lexer \<Rightarrow> Lexer" where
  "advance n s = s\<lparr>position := position s + n, column := column s + int n\<rparr>"

text \<open>The comment loop of \<^verbatim>\<open>_skip_whitespace_and_comments\<close>: only \<open>position\<close> moves.\<close>

function skip_comment :: "Lexer \<Rightarrow> Lexer" where
  "skip_comment s =
     (if position s < length (source s) \<and> source s ! position s \<noteq> CHR 0x0A
      then skip_comment (s\<lparr>position := position s + 1\<rparr>)
      else s)"
  by pat_completeness auto
termination
  by (relation "measure (\<lambda>s. length (source s) - position s)") auto

declare skip_comment.simps [simp del]

lemma skip_comment_source: "source (skip_comment s) = source s"
proof (induction s rule: skip_comment.induct)
  case (1 s)
  show ?case
  proof (cases "position s < length (source s) \<and> source s ! position s \<noteq> CHR 0x0A")
    case True
    then have "skip_comment s = skip_comment (s\<lparr>position := position s + 1\<rparr>)"
      by (subst skip_comment.simps) simp
    with 1 [OF True] show ?thesis by simp
  next
    case False
    then have "skip_comment s = s"
      by (subst skip_comment.simps) auto
    then show ?thesis by simp
  qed
qed

lemma skip_comment_position: "position s \<le> position (skip_comment s)"
proof (induction s rule: skip_comment.induct)
  case (1 s)
  show ?case
  proof (cases "position s < length (source s) \<and> source s ! position s \<noteq> CHR 0x0A")
    case True
    then have eq: "skip_comment s = skip_comment (s\<lparr>position := position s + 1\<rparr>)"
      by (subst skip_comment.simps) simp
    from 1 [OF True]
    have "position s + 1 \<le> position (skip_comment (s\<lparr>position := position s + 1\<rparr>))"
      by simp
    with eq show ?thesis by simp
  next
    case False
    then have "skip_comment s = s"
      by (subst skip_comment.simps) auto
    then show ?thesis by simp
  qed
qed

lemma skip_comment_advances:
  assumes "position s < length (source s)" and "source s ! position s \<noteq> CHR 0x0A"
  shows "position s < position (skip_comment s)"
proof -
  have "skip_comment s = skip_comment (s\<lparr>position := position s + 1\<rparr>)"
    using assms by (subst skip_comment.simps) simp
  moreover have "position (s\<lparr>position := position s + 1\<rparr>)
      \<le> position (skip_comment (s\<lparr>position := position s + 1\<rparr>))"
    by (rule skip_comment_position)
  ultimately show ?thesis by simp
qed

lemma advance_0: "advance 0 s = s"
  by (simp add: advance_def)

lemma advance_advance: "advance m (advance n s) = advance (n + m) s"
  by (simp add: advance_def add.assoc)

lemma drop_at: "p < length xs \<Longrightarrow> drop p xs = xs ! p # drop (Suc p) xs"
  by (simp add: Cons_nth_drop_Suc)

lemma skip_comment_eq:
  "skip_comment s =
     s\<lparr>position := position s
          + length (takeWhile (\<lambda>c. c \<noteq> CHR 0x0A) (drop (position s) (source s)))\<rparr>"
proof (induction s rule: skip_comment.induct)
  case (1 s)
  show ?case
  proof (cases "position s < length (source s) \<and> source s ! position s \<noteq> CHR 0x0A")
    case True
    then have eq: "skip_comment s = skip_comment (s\<lparr>position := position s + 1\<rparr>)"
      by (subst skip_comment.simps) simp
    from 1 [OF True] eq True show ?thesis
      by (simp add: drop_at)
  next
    case False
    then have "skip_comment s = s"
      by (subst skip_comment.simps) auto
    moreover have "takeWhile (\<lambda>c. c \<noteq> CHR 0x0A) (drop (position s) (source s)) = []"
      using False by (cases "position s < length (source s)") (auto simp: drop_at)
    ultimately show ?thesis by simp
  qed
qed

text \<open>\<^verbatim>\<open>_skip_whitespace_and_comments\<close>\<close>

function skip_whitespace_and_comments :: "Lexer \<Rightarrow> Lexer" where
  "skip_whitespace_and_comments s =
     (if position s < length (source s) then
        (let char = source s ! position s in
         if char = CHR '' '' \<or> char = CHR 0x09 then
           skip_whitespace_and_comments (advance 1 s)
         else if char = CHR ''#'' then
           skip_whitespace_and_comments (skip_comment s)
         else s)
      else s)"
  by pat_completeness auto
termination
proof (relation "measure (\<lambda>s. length (source s) - position s)", goal_cases)
  case 1
  show ?case by simp
next
  case (2 s char)
  then show ?case by (simp add: advance_def)
next
  case (3 s char)
  then have "position s < position (skip_comment s)"
    by (intro skip_comment_advances) auto
  with 3 show ?case by (simp add: skip_comment_source)
qed

declare skip_whitespace_and_comments.simps [simp del]

lemma skip_whitespace_and_comments_frame:
  "\<exists>p c. skip_whitespace_and_comments s = s\<lparr>position := p, column := c\<rparr>
     \<and> position s \<le> p \<and> column s \<le> c"
proof (induction s rule: skip_whitespace_and_comments.induct)
  case (1 s)
  let ?ch = "source s ! position s"
  consider (ws) "position s < length (source s)" "?ch = CHR '' '' \<or> ?ch = CHR 0x09"
    | (hash) "position s < length (source s)" "\<not> (?ch = CHR '' '' \<or> ?ch = CHR 0x09)"
        "?ch = CHR ''#''"
    | (stop) "\<not> position s < length (source s)
        \<or> (\<not> (?ch = CHR '' '' \<or> ?ch = CHR 0x09) \<and> ?ch \<noteq> CHR ''#'')"
    by blast
  then show ?case
  proof cases
    case ws
    then have eq: "skip_whitespace_and_comments s = skip_whitespace_and_comments (advance 1 s)"
      by (subst skip_whitespace_and_comments.simps) (simp add: Let_def)
    from "1.IH"(1) [OF ws(1) refl ws(2)]
    obtain p c where "skip_whitespace_and_comments (advance 1 s)
        = (advance 1 s)\<lparr>position := p, column := c\<rparr>"
      "position (advance 1 s) \<le> p" "column (advance 1 s) \<le> c"
      by blast
    with eq show ?thesis
      by (intro exI [of _ p] exI [of _ c]) (simp add: advance_def)
  next
    case hash
    then have eq: "skip_whitespace_and_comments s
        = skip_whitespace_and_comments (skip_comment s)"
      by (subst skip_whitespace_and_comments.simps) (simp add: Let_def)
    from "1.IH"(2) [OF hash(1) refl hash(2) hash(3)]
    obtain p c where "skip_whitespace_and_comments (skip_comment s)
        = (skip_comment s)\<lparr>position := p, column := c\<rparr>"
      "position (skip_comment s) \<le> p" "column (skip_comment s) \<le> c"
      by blast
    with eq skip_comment_position [of s] show ?thesis
      by (intro exI [of _ p] exI [of _ c]) (simp add: skip_comment_eq)
  next
    case stop
    then have "skip_whitespace_and_comments s = s"
      by (subst skip_whitespace_and_comments.simps) (auto simp: Let_def)
    then show ?thesis
      by (intro exI [of _ "position s"] exI [of _ "column s"]) simp
  qed
qed

lemma skip_whitespace_and_comments_stops:
  "position (skip_whitespace_and_comments s) < length (source s) \<Longrightarrow>
   source s ! position (skip_whitespace_and_comments s) \<notin> {CHR '' '', CHR 0x09, CHR ''#''}"
proof (induction s rule: skip_whitespace_and_comments.induct)
  case (1 s)
  let ?ch = "source s ! position s"
  consider (ws) "position s < length (source s)" "?ch = CHR '' '' \<or> ?ch = CHR 0x09"
    | (hash) "position s < length (source s)" "\<not> (?ch = CHR '' '' \<or> ?ch = CHR 0x09)"
        "?ch = CHR ''#''"
    | (stop) "\<not> position s < length (source s)
        \<or> (\<not> (?ch = CHR '' '' \<or> ?ch = CHR 0x09) \<and> ?ch \<noteq> CHR ''#'')"
    by blast
  then show ?case
  proof cases
    case ws
    then have eq: "skip_whitespace_and_comments s = skip_whitespace_and_comments (advance 1 s)"
      by (subst skip_whitespace_and_comments.simps) (simp add: Let_def)
    from "1.IH"(1) [OF ws(1) refl ws(2)] "1.prems" eq show ?thesis
      by (simp add: advance_def)
  next
    case hash
    then have eq: "skip_whitespace_and_comments s
        = skip_whitespace_and_comments (skip_comment s)"
      by (subst skip_whitespace_and_comments.simps) (simp add: Let_def)
    from "1.IH"(2) [OF hash(1) refl hash(2) hash(3)] "1.prems" eq show ?thesis
      by (simp add: skip_comment_source)
  next
    case stop
    then have "skip_whitespace_and_comments s = s"
      by (subst skip_whitespace_and_comments.simps) (auto simp: Let_def)
    with stop "1.prems" show ?thesis by auto
  qed
qed

text \<open>The digit loops of \<^verbatim>\<open>_read_number\<close>.\<close>

function read_digits :: "Lexer \<Rightarrow> Lexer" where
  "read_digits s =
     (if position s < length (source s) \<and> isdigit (source s ! position s)
      then read_digits (advance 1 s)
      else s)"
  by pat_completeness auto
termination
  by (relation "measure (\<lambda>s. length (source s) - position s)") (auto simp: advance_def)

declare read_digits.simps [simp del]

lemma read_digits_eq:
  "read_digits s = advance (length (takeWhile isdigit (drop (position s) (source s)))) s"
proof (induction s rule: read_digits.induct)
  case (1 s)
  show ?case
  proof (cases "position s < length (source s) \<and> isdigit (source s ! position s)")
    case True
    then have eq: "read_digits s = read_digits (advance 1 s)"
      by (subst read_digits.simps) simp
    have "read_digits (advance 1 s) =
        advance (length (takeWhile isdigit (drop (Suc (position s)) (source s)))) (advance 1 s)"
      using 1 [OF True] by (simp add: advance_def)
    with eq True show ?thesis
      by (simp add: advance_advance drop_at)
  next
    case False
    then have "read_digits s = s"
      by (subst read_digits.simps) auto
    moreover have "takeWhile isdigit (drop (position s) (source s)) = []"
      using False by (cases "position s < length (source s)") (auto simp: drop_at)
    ultimately show ?thesis by (simp add: advance_0)
  qed
qed

text \<open>\<^verbatim>\<open>_read_number\<close>\<close>

definition read_number :: "Lexer \<Rightarrow> error + Lexer" where
  "read_number s =
     (let start_pos = position s;
          s1 = read_digits s
      in if position s1 < length (source s1) \<and> source s1 ! position s1 = CHR ''.'' then
           (let s2 = read_digits (advance 1 s1) in
            case py_float (slice (source s2) start_pos (position s2)) of
              Inl e \<Rightarrow> Inl e
            | Inr v \<Rightarrow> Inr (add_token FLOAT v s2))
         else
           (case py_int (slice (source s1) start_pos (position s1)) of
              Inl e \<Rightarrow> Inl e
            | Inr v \<Rightarrow> Inr (add_token INTEGER (PyInt v) s1)))"

text \<open>The loop of \<^verbatim>\<open>_read_identifier\<close>.\<close>

function read_identifier_chars :: "Lexer \<Rightarrow> Lexer" where
  "read_identifier_chars s =
     (if position s < length (source s)
         \<and> (isalnum (source s ! position s)
              \<or> source s ! position s \<in> set ''_?!'')
      then read_identifier_chars (advance 1 s)
      else s)"
  by pat_completeness auto
termination
  by (relation "measure (\<lambda>s. length (source s) - position s)") (auto simp: advance_def)

declare read_identifier_chars.simps [simp del]

lemma read_identifier_chars_eq:
  "read_identifier_chars s =
     advance (length (takeWhile (\<lambda>c. isalnum c \<or> c \<in> set ''_?!'')
                        (drop (position s) (source s)))) s"
proof (induction s rule: read_identifier_chars.induct)
  case (1 s)
  let ?P = "\<lambda>c. isalnum c \<or> c \<in> set ''_?!''"
  show ?case
  proof (cases "position s < length (source s) \<and> ?P (source s ! position s)")
    case True
    then have eq: "read_identifier_chars s = read_identifier_chars (advance 1 s)"
      by (subst read_identifier_chars.simps) simp
    have "read_identifier_chars (advance 1 s) =
        advance (length (takeWhile ?P (drop (Suc (position s)) (source s)))) (advance 1 s)"
      using 1 [OF True] by (simp add: advance_def)
    with eq True show ?thesis
      by (simp add: advance_advance drop_at)
  next
    case False
    then have "read_identifier_chars s = s"
      by (subst read_identifier_chars.simps) auto
    moreover have "takeWhile ?P (drop (position s) (source s)) = []"
      using False by (cases "position s < length (source s)") (auto simp: drop_at)
    ultimately show ?thesis by (simp add: advance_0)
  qed
qed

text \<open>\<^verbatim>\<open>_read_identifier\<close>\<close>

definition read_identifier :: "Lexer \<Rightarrow> Lexer" where
  "read_identifier s =
     (let start_pos = position s;
          s1 = read_identifier_chars s;
          v = slice (source s1) start_pos (position s1);
          token_type = keyword_or_identifier v
      in add_token token_type (PyStr v) s1)"

text \<open>
  The loop of \<^verbatim>\<open>_read_string\<close>, on the lexer and the local \<^verbatim>\<open>value\<close>. A backslash
  that is the last character of the source adds nothing and leaves \<open>position\<close> one past
  the end of the source.
\<close>

function read_string_chars :: "char \<Rightarrow> Lexer \<times> string \<Rightarrow> Lexer \<times> string" where
  "read_string_chars quote (s, v) =
     (if position s < length (source s) \<and> source s ! position s \<noteq> quote then
        (if source s ! position s = CHR 0x5C then
           (let s1 = advance 1 s;
                v1 = (if position s1 < length (source s1) then
                        (let escape_char = source s1 ! position s1 in
                         if escape_char = CHR ''n'' then v @ [CHR 0x0A]
                         else if escape_char = CHR ''t'' then v @ [CHR 0x09]
                         else if escape_char = CHR 0x5C then v @ [CHR 0x5C]
                         else v @ [escape_char])
                      else v)
            in read_string_chars quote (advance 1 s1, v1))
         else read_string_chars quote (advance 1 s, v @ [source s ! position s]))
      else (s, v))"
  by pat_completeness auto
termination
  by (relation "measure (\<lambda>(quote, s, v). length (source s) - position s)")
     (auto simp: advance_def)

declare read_string_chars.simps [simp del]

text \<open>\<^verbatim>\<open>_read_string\<close>\<close>

definition read_string :: "char \<Rightarrow> Lexer \<Rightarrow> Lexer" where
  "read_string quote s =
     (case read_string_chars quote (advance 1 s, []) of
        (s1, v) \<Rightarrow>
          (let s2 = (if position s1 < length (source s1) then advance 1 s1 else s1)
           in add_token STRING (PyStr v) s2))"

text \<open>
  The string reader in closed form. \<open>escape e\<close> is what the two characters backslash,
  \<open>e\<close> stand for; \<open>raw_body quote cs\<close> is the part of \<open>cs\<close> before the first
  \<open>quote\<close> that is not the second character of an escape pair (all of \<open>cs\<close> when there is
  none); \<open>decode_escapes\<close> replaces every escape pair of a text, and drops a backslash
  that ends it; \<open>string_steps\<close> is the number of positions the loop moves the cursor.
\<close>

definition escape :: "char \<Rightarrow> char" where
  "escape e =
     (if e = CHR ''n'' then CHR 0x0A
      else if e = CHR ''t'' then CHR 0x09
      else if e = CHR 0x5C then CHR 0x5C
      else e)"

fun decode_escapes :: "string \<Rightarrow> string" where
  "decode_escapes [] = []"
| "decode_escapes [c] = (if c = CHR 0x5C then [] else [c])"
| "decode_escapes (c # e # cs) =
     (if c = CHR 0x5C then escape e # decode_escapes cs
      else c # decode_escapes (e # cs))"

fun raw_body :: "char \<Rightarrow> string \<Rightarrow> string" where
  "raw_body quote [] = []"
| "raw_body quote [c] = (if c = quote then [] else [c])"
| "raw_body quote (c # e # cs) =
     (if c = quote then []
      else if c = CHR 0x5C then c # e # raw_body quote cs
      else c # raw_body quote (e # cs))"

fun string_steps :: "char \<Rightarrow> string \<Rightarrow> nat" where
  "string_steps quote [] = 0"
| "string_steps quote [c] = (if c = quote then 0 else if c = CHR 0x5C then Suc (Suc 0) else Suc 0)"
| "string_steps quote (c # e # cs) =
     (if c = quote then 0
      else if c = CHR 0x5C then Suc (Suc (string_steps quote cs))
      else Suc (string_steps quote (e # cs)))"

lemma decode_escapes_plain:
  "c \<noteq> CHR 0x5C \<Longrightarrow> decode_escapes (c # cs) = c # decode_escapes cs"
  by (cases cs) simp_all

lemma raw_body_plain:
  "c \<noteq> quote \<Longrightarrow> c \<noteq> CHR 0x5C \<Longrightarrow> raw_body quote (c # cs) = c # raw_body quote cs"
  by (cases cs) simp_all

lemma string_steps_plain:
  "c \<noteq> quote \<Longrightarrow> c \<noteq> CHR 0x5C \<Longrightarrow>
   string_steps quote (c # cs) = Suc (string_steps quote cs)"
  by (cases cs) simp_all

lemma read_string_chars_pair:
  "read_string_chars quote sv =
     (advance (string_steps quote (drop (position (fst sv)) (source (fst sv)))) (fst sv),
      snd sv @ decode_escapes (raw_body quote (drop (position (fst sv)) (source (fst sv)))))"
proof (induction quote sv rule: read_string_chars.induct)
  case (1 quote s v)
  let ?c = "source s ! position s"
  consider (esc_end) "position s < length (source s)" "?c \<noteq> quote" "?c = CHR 0x5C"
      "\<not> Suc (position s) < length (source s)"
    | (esc) "position s < length (source s)" "?c \<noteq> quote" "?c = CHR 0x5C"
      "Suc (position s) < length (source s)"
    | (plain) "position s < length (source s)" "?c \<noteq> quote" "?c \<noteq> CHR 0x5C"
    | (stop) "\<not> (position s < length (source s) \<and> ?c \<noteq> quote)"
    by blast
  then show ?case
  proof cases
    case esc_end
    then have d: "drop (position s) (source s) = [CHR 0x5C]"
      by (simp add: drop_at)
    have "read_string_chars quote (s, v) = read_string_chars quote (advance 1 (advance 1 s), v)"
      using esc_end by (subst read_string_chars.simps) (simp add: Let_def advance_def)
    also have "\<dots> = (advance 1 (advance 1 s), v)"
      using esc_end by (subst read_string_chars.simps) (simp add: advance_def)
    finally show ?thesis
      using esc_end d by (simp add: advance_advance)
  next
    case esc
    let ?e = "source s ! Suc (position s)"
    define x where "x = advance 1 s"
    define xa where "xa =
         (if position x < length (source x)
          then let escape_char = source x ! position x
               in if escape_char = CHR ''n'' then v @ [CHR 0x0A]
                  else if escape_char = CHR ''t'' then v @ [CHR 0x09]
                       else if escape_char = CHR 0x5C then v @ [CHR 0x5C]
                            else v @ [escape_char]
          else v)"
    have xa: "xa = v @ [escape ?e]"
      using esc by (simp add: xa_def x_def advance_def Let_def escape_def)
    have d: "drop (position s) (source s)
        = CHR 0x5C # ?e # drop (Suc (Suc (position s))) (source s)"
      using esc by (simp add: drop_at)
    have eq: "read_string_chars quote (s, v) = read_string_chars quote (advance 1 x, xa)"
      using esc unfolding xa_def x_def
      by (subst read_string_chars.simps) (simp add: Let_def)
    have c1: "position s < length (source s) \<and> ?c \<noteq> quote"
      using esc by simp
    have "read_string_chars quote (advance 1 x, xa) =
        (advance (string_steps quote (drop (Suc (Suc (position s))) (source s))) (advance 1 x),
         xa @ decode_escapes (raw_body quote (drop (Suc (Suc (position s))) (source s))))"
      using "1.IH"(1) [OF c1 esc(3) x_def xa_def] by (simp add: x_def advance_def)
    with eq d esc show ?thesis
      by (simp add: xa x_def advance_advance)
  next
    case plain
    have d: "drop (position s) (source s) = ?c # drop (Suc (position s)) (source s)"
      using plain by (simp add: drop_at)
    have eq: "read_string_chars quote (s, v) = read_string_chars quote (advance 1 s, v @ [?c])"
      using plain by (subst read_string_chars.simps) simp
    have c1: "position s < length (source s) \<and> ?c \<noteq> quote"
      using plain by simp
    have "read_string_chars quote (advance 1 s, v @ [?c]) =
        (advance (string_steps quote (drop (Suc (position s)) (source s))) (advance 1 s),
         (v @ [?c]) @ decode_escapes (raw_body quote (drop (Suc (position s)) (source s))))"
      using "1.IH"(2) [OF c1 plain(3)] by (simp add: advance_def)
    with eq plain show ?thesis
      by (simp add: d advance_advance decode_escapes_plain raw_body_plain string_steps_plain)
  next
    case stop
    then have eq: "read_string_chars quote (s, v) = (s, v)"
      by (subst read_string_chars.simps) auto
    have "raw_body quote (drop (position s) (source s)) = []
        \<and> string_steps quote (drop (position s) (source s)) = 0"
    proof (cases "position s < length (source s)")
      case True
      with stop have "?c = quote" by simp
      with True show ?thesis
        by (cases "drop (Suc (position s)) (source s)") (simp_all add: drop_at)
    next
      case False
      then show ?thesis by simp
    qed
    with eq show ?thesis by (simp add: advance_0)
  qed
qed

lemma read_string_chars_eq:
  "read_string_chars quote (s, v) =
     (advance (string_steps quote (drop (position s) (source s))) s,
      v @ decode_escapes (raw_body quote (drop (position s) (source s))))"
  using read_string_chars_pair [of quote "(s, v)"] by simp

text \<open>
  \<^verbatim>\<open>_read_operator\<close>. The two-character table is consulted only when a second
  character exists; every branch of it returns early.
\<close>

definition two_char_operator :: "string \<rightharpoonup> TokenType" where
  "two_char_operator two_char =
     (if two_char = ''=='' then Some EQ
      else if two_char = ''!='' then Some NEQ
      else if two_char = ''<='' then Some LE
      else if two_char = ''>='' then Some GE
      else if two_char = ''->'' then Some ARROW
      else if two_char = ''**'' then Some POW
      else if two_char = ''|>'' then Some PIPE
      else None)"

definition one_char_operator :: "char \<rightharpoonup> TokenType" where
  "one_char_operator char =
     (if char = CHR ''+'' then Some PLUS
      else if char = CHR ''-'' then Some MINUS
      else if char = CHR ''*'' then Some STAR
      else if char = CHR ''/'' then Some SLASH
      else if char = CHR ''%'' then Some PERCENT
      else if char = CHR ''='' then Some ASSIGN
      else if char = CHR ''<'' then Some LT
      else if char = CHR ''>'' then Some GT
      else if char = CHR ''|'' then Some PIPE
      else None)"

definition read_one_char_operator :: "Lexer \<Rightarrow> Lexer" where
  "read_one_char_operator s =
     (let char = source s ! position s in
      advance 1
        (case one_char_operator char of
           Some t \<Rightarrow> add_token t (PyStr [char]) s
         | None \<Rightarrow> s\<lparr>warnings := warnings s @ [(char, line s, column s)]\<rparr>))"

definition read_operator :: "Lexer \<Rightarrow> Lexer" where
  "read_operator s =
     (if position s + 1 < length (source s) then
        (let two_char = slice (source s) (position s) (position s + 2) in
         case two_char_operator two_char of
           Some t \<Rightarrow> advance 2 (add_token t (PyStr two_char) s)
         | None \<Rightarrow> read_one_char_operator s)
      else read_one_char_operator s)"

text \<open>
  The branches of \<^verbatim>\<open>tokenize\<close> for the ten punctuation characters: the token is added
  first, the cursor moves afterwards.
\<close>

definition punctuation :: "char \<rightharpoonup> TokenType" where
  "punctuation char =
     (if char = CHR '':'' then Some COLON
      else if char = CHR '';'' then Some SEMICOLON
      else if char = CHR '','' then Some COMMA
      else if char = CHR ''.'' then Some DOT
      else if char = CHR ''('' then Some LPAREN
      else if char = CHR '')'' then Some RPAREN
      else if char = CHR ''['' then Some LBRACKET
      else if char = CHR '']'' then Some RBRACKET
      else if char = CHR ''{'' then Some LBRACE
      else if char = CHR ''}'' then Some RBRACE
      else None)"

text \<open>
  One pass through the body of the \<^verbatim>\<open>while\<close> loop of \<^verbatim>\<open>tokenize\<close> after the
  whitespace has been skipped, with \<open>position s < length (source s)\<close>.
\<close>

definition scan_token :: "Lexer \<Rightarrow> error + Lexer" where
  "scan_token s =
     (let char = source s ! position s in
      if char = CHR 0x0A then
        (let s1 = s\<lparr>position := position s + 1, line := line s + 1, column := 1\<rparr>
         in Inr (s1\<lparr>tokens := tokens s1
                    @ [Token NEWLINE (PyStr [CHR 0x0A]) (line s1 - 1) (column s1)]\<rparr>))
      else if isdigit char then read_number s
      else if isalpha char \<or> char = CHR ''_'' then Inr (read_identifier s)
      else if char = CHR 0x22 \<or> char = CHR 0x27 then Inr (read_string char s)
      else (case punctuation char of
              Some t \<Rightarrow> Inr (advance 1 (add_token t (PyStr [char]) s))
            | None \<Rightarrow> Inr (read_operator s)))"

lemma takeWhile_first:
  "p < length xs \<Longrightarrow> P (xs ! p) \<Longrightarrow> 0 < length (takeWhile P (drop p xs))"
  by (simp add: drop_at)

lemma isalpha_isalnum: "isalpha c \<Longrightarrow> isalnum c"
  by (simp add: isalnum_def)

lemma read_number_progress:
  assumes "position s < length (source s)" and "isdigit (source s ! position s)"
    and "read_number s = Inr s'"
  shows "source s' = source s \<and> position s < position s'"
proof -
  have "0 < length (takeWhile isdigit (drop (position s) (source s)))"
    using assms(1,2) by (rule takeWhile_first)
  with assms(3) show ?thesis
    by (auto simp: read_number_def read_digits_eq Let_def advance_def add_token_def
             split: if_splits sum.splits)
qed

lemma read_identifier_progress:
  assumes "position s < length (source s)"
    and "isalpha (source s ! position s) \<or> source s ! position s = CHR ''_''"
  shows "source (read_identifier s) = source s \<and> position s < position (read_identifier s)"
proof -
  let ?P = "\<lambda>c. isalnum c \<or> c \<in> set ''_?!''"
  have "?P (source s ! position s)"
    using assms(2) by (auto simp: isalpha_isalnum)
  with assms(1) have "0 < length (takeWhile ?P (drop (position s) (source s)))"
    by (rule takeWhile_first)
  then show ?thesis
    by (simp add: read_identifier_def read_identifier_chars_eq Let_def advance_def
          add_token_def)
qed

lemma read_string_progress:
  "source (read_string quote s) = source s \<and> position s < position (read_string quote s)"
  by (simp add: read_string_def read_string_chars_eq Let_def advance_def add_token_def)

lemma read_operator_progress:
  "source (read_operator s) = source s \<and> position s < position (read_operator s)"
  by (simp add: read_operator_def read_one_char_operator_def Let_def advance_def
        add_token_def split: option.splits)

lemma scan_token_progress:
  assumes "position s < length (source s)" and "scan_token s = Inr s'"
  shows "source s' = source s \<and> position s < position s'"
proof -
  let ?c = "source s ! position s"
  consider (nl) "?c = CHR 0x0A"
    | (num) "?c \<noteq> CHR 0x0A" "isdigit ?c"
    | (ident) "?c \<noteq> CHR 0x0A" "\<not> isdigit ?c" "isalpha ?c \<or> ?c = CHR ''_''"
    | (str) "?c \<noteq> CHR 0x0A" "\<not> isdigit ?c" "\<not> (isalpha ?c \<or> ?c = CHR ''_'')"
        "?c = CHR 0x22 \<or> ?c = CHR 0x27"
    | (other) "?c \<noteq> CHR 0x0A" "\<not> isdigit ?c" "\<not> (isalpha ?c \<or> ?c = CHR ''_'')"
        "\<not> (?c = CHR 0x22 \<or> ?c = CHR 0x27)"
    by blast
  then show ?thesis
  proof cases
    case nl
    with assms(2) show ?thesis
      by (auto simp: scan_token_def Let_def)
  next
    case num
    with assms(2) have "read_number s = Inr s'"
      by (simp add: scan_token_def Let_def)
    with assms(1) num(2) show ?thesis
      by (rule read_number_progress)
  next
    case ident
    with assms(2) have "s' = read_identifier s"
      by (simp add: scan_token_def Let_def)
    with read_identifier_progress [OF assms(1) ident(3)] show ?thesis
      by simp
  next
    case str
    with assms(2) have "s' = read_string ?c s"
      by (simp add: scan_token_def Let_def)
    with read_string_progress [of ?c s] show ?thesis
      by simp
  next
    case other
    with assms(2) have "s' = (case punctuation ?c of
        Some t \<Rightarrow> advance 1 (add_token t (PyStr [?c]) s) | None \<Rightarrow> read_operator s)"
      by (auto simp: scan_token_def Let_def split: option.splits)
    with read_operator_progress [of s] show ?thesis
      by (auto simp: advance_def add_token_def split: option.splits)
  qed
qed

text \<open>The \<^verbatim>\<open>while\<close> loop of \<^verbatim>\<open>tokenize\<close>.\<close>

function tokenize_loop :: "Lexer \<Rightarrow> error + Lexer" where
  "tokenize_loop s =
     (if position s < length (source s) then
        (let s1 = skip_whitespace_and_comments s in
         if position s1 \<ge> length (source s1) then Inr s1
         else (case scan_token s1 of
                 Inl e \<Rightarrow> Inl e
               | Inr s2 \<Rightarrow> tokenize_loop s2))
      else Inr s)"
  by pat_completeness auto
termination
proof (relation "measure (\<lambda>s. length (source s) - position s)", goal_cases)
  case 1
  show ?case by simp
next
  case (2 s s1 s2)
  obtain p c where sk: "s1 = s\<lparr>position := p, column := c\<rparr>" "position s \<le> p"
    using skip_whitespace_and_comments_frame [of s] 2(2) by blast
  have lt: "position s1 < length (source s1)"
    using 2(3) by simp
  then have "source s2 = source s1 \<and> position s1 < position s2"
    using 2(4) by (intro scan_token_progress) simp_all
  with sk lt have "position s < position s2" "position s < length (source s)"
    "source s2 = source s"
    by auto
  then show ?case by (simp add: diff_less_mono2)
qed

declare tokenize_loop.simps [simp del]

text \<open>
  \<^verbatim>\<open>tokenize\<close>: the lexer as it is when the method returns, and the returned list.
\<close>

definition tokenize_lexer :: "string \<Rightarrow> error + Lexer" where
  "tokenize_lexer src =
     (case tokenize_loop (init src) of
        Inl e \<Rightarrow> Inl e
      | Inr s \<Rightarrow> Inr (add_token EOF PyNone s))"

definition tokenize :: "string \<Rightarrow> error + Token list" where
  "tokenize src = (case tokenize_lexer src of Inl e \<Rightarrow> Inl e | Inr s \<Rightarrow> Inr (tokens s))"

lemma slice_two:
  "p + 1 < length xs \<Longrightarrow> slice xs p (p + 2) = [xs ! p, xs ! (p + 1)]"
  by (simp add: slice_def drop_at)

text \<open>
  The two-character operators as the specification lists them, each with the kind of
  token it stands for, to compare with what the operator reader does.
\<close>

definition two_char_table :: "(string \<times> TokenType) list" where
  "two_char_table =
     [(''=='', EQ), (''!='', NEQ), (''<='', LE), (''>='', GE), (''->'', ARROW),
      (''**'', POW), (''|>'', PIPE)]"

lemma two_char_table_lookup:
  "(op, t) \<in> set two_char_table \<Longrightarrow>
   two_char_operator op = Some t \<and> length op = 2 \<and> hd op \<in> set ''=!<>-*|''"
  unfolding two_char_table_def
  by (elim disjE conjE | simp add: two_char_operator_def)+

lemma operator_start_dispatch:
  "c \<in> set ''=!<>-*|'' \<Longrightarrow>
   c \<noteq> CHR 0x0A \<and> \<not> isdigit c \<and> \<not> isalpha c \<and> c \<noteq> CHR ''_'' \<and> c \<noteq> CHR 0x22
   \<and> c \<noteq> CHR 0x27 \<and> punctuation c = None"
  by (elim disjE | simp add: isdigit_def isdecimal_def isalpha_def cp_def punctuation_def)+

section \<open>Claims\<close>

subsection \<open>C3: the position recorded on a Newline token\<close>

text \<open>
  C3 as stated: the Newline token records the line counter after the increment and the
  reset column 1. The code passes \<^verbatim>\<open>self.line - 1\<close> after it has incremented the counter,
  so the claim fails on the line: for the source that is a single newline the token is at
  line 1 while the counter is 2.
\<close>

theorem newline_token_line_counterexample:
  "scan_token (init [CHR 0x0A]) =
     Inr \<lparr>source = [CHR 0x0A], position = 1, line = 2, column = 1,
          tokens = [Token NEWLINE (PyStr [CHR 0x0A]) 1 1], indent_stack = [0],
          warnings = []\<rparr>
   \<and> tokenize [CHR 0x0A]
       = Inr [Token NEWLINE (PyStr [CHR 0x0A]) 1 1, Token EOF PyNone 2 1]"
  by code_simp

text \<open>
  C3 as amended: when the main loop scans a newline character, it emits exactly one
  Newline token whose line field is the line counter before the increment (the line the
  newline character ends, one less than the counter afterwards) and whose column field
  is the reset column 1; the counter is incremented, the column is reset to 1 and the
  cursor moves by one.
\<close>

theorem newline_token_position:
  assumes "position s < length (source s)" and "source s ! position s = CHR 0x0A"
  shows "\<exists>s'. scan_token s = Inr s'
        \<and> tokens s' = tokens s @ [Token NEWLINE (PyStr [CHR 0x0A]) (line s) 1]
        \<and> line s' = line s + 1 \<and> column s' = 1 \<and> position s' = position s + 1"
  using assms by (simp add: scan_token_def Let_def)


text \<open>The amended C3 at the source that is a single newline.\<close>

theorem newline_token_position_witness:
  "position (init [CHR 0x0A]) < length (source (init [CHR 0x0A]))
   \<and> source (init [CHR 0x0A]) ! position (init [CHR 0x0A]) = CHR 0x0A
   \<and> (\<exists>s'. scan_token (init [CHR 0x0A]) = Inr s'
        \<and> tokens s' = tokens (init [CHR 0x0A])
             @ [Token NEWLINE (PyStr [CHR 0x0A]) (line (init [CHR 0x0A])) 1]
        \<and> line s' = line (init [CHR 0x0A]) + 1 \<and> column s' = 1
        \<and> position s' = position (init [CHR 0x0A]) + 1)"
proof -
  define s where "s = init [CHR 0x0A]"
  have h1: "position s < length (source s)"
    by (simp add: s_def init_def)
  have h2: "source s ! position s = CHR 0x0A"
    by (simp add: s_def init_def)
  note c = newline_token_position [OF h1 h2]
  show ?thesis
    using h1 h2 c unfolding s_def by (intro conjI)
qed

subsection \<open>C6: two-character operators win over their one-character prefixes\<close>

text \<open>
  C6: whenever at least two characters remain and the next two are one of the operators
  \<^verbatim>\<open>== != <= >= -> ** |>\<close>, the scanner emits exactly one token, of that operator's kind
  and with the two characters as value, and moves the cursor by two, so that no
  one-character operator is tried; the source \<^verbatim>\<open>->\<close> yields one Arrow token and the
  source \<^verbatim>\<open>==\<close> one Eq token, each followed by the end-of-input token only.
\<close>

theorem two_char_operators_first:
  assumes "position s + 1 < length (source s)"
    and "(op, t) \<in> set two_char_table"
    and "slice (source s) (position s) (position s + 2) = op"
  shows "scan_token s = Inr (advance 2 (add_token t (PyStr op) s))
    \<and> tokens (advance 2 (add_token t (PyStr op) s))
        = tokens s @ [Token t (PyStr op) (line s) (column s)]
    \<and> tokenize ''->'' = Inr [Token ARROW (PyStr ''->'') 1 1, Token EOF PyNone 1 3]
    \<and> tokenize ''=='' = Inr [Token EQ (PyStr ''=='') 1 1, Token EOF PyNone 1 3]"
proof (intro conjI)
  note lt = assms(1) and mem = assms(2) and sl = assms(3)
  have op: "op = [source s ! position s, source s ! (position s + 1)]"
    using slice_two [OF lt] sl by simp
  have look: "two_char_operator op = Some t" "hd op \<in> set ''=!<>-*|''"
    using two_char_table_lookup [OF mem] by blast+
  have "source s ! position s = hd op"
    by (subst op) simp
  with look(2) have "source s ! position s \<in> set ''=!<>-*|''"
    by simp
  from operator_start_dispatch [OF this]
  have "scan_token s = Inr (read_operator s)"
    by (simp add: scan_token_def Let_def)
  moreover have "read_operator s = advance 2 (add_token t (PyStr op) s)"
    using lt sl look(1) by (simp add: read_operator_def Let_def)
  ultimately show "scan_token s = Inr (advance 2 (add_token t (PyStr op) s))"
    by simp
  show "tokens (advance 2 (add_token t (PyStr op) s))
      = tokens s @ [Token t (PyStr op) (line s) (column s)]"
    by (simp add: advance_def add_token_def)
  show "tokenize ''->'' = Inr [Token ARROW (PyStr ''->'') 1 1, Token EOF PyNone 1 3]"
    by code_simp
  show "tokenize ''=='' = Inr [Token EQ (PyStr ''=='') 1 1, Token EOF PyNone 1 3]"
    by code_simp
qed


text \<open>C6 at the pipe operator in the middle of the source \<^verbatim>\<open>a|>b\<close>.\<close>

theorem two_char_operators_first_witness:
  "position (init ''a|>b'' \<lparr>position := 1\<rparr>) + 1
       < length (source (init ''a|>b'' \<lparr>position := 1\<rparr>))
   \<and> (''|>'', PIPE) \<in> set two_char_table
   \<and> slice (source (init ''a|>b'' \<lparr>position := 1\<rparr>))
        (position (init ''a|>b'' \<lparr>position := 1\<rparr>))
        (position (init ''a|>b'' \<lparr>position := 1\<rparr>) + 2) = ''|>''
   \<and> scan_token (init ''a|>b'' \<lparr>position := 1\<rparr>)
       = Inr (advance 2 (add_token PIPE (PyStr ''|>'') (init ''a|>b'' \<lparr>position := 1\<rparr>)))"
proof -
  define s where "s = init ''a|>b'' \<lparr>position := 1\<rparr>"
  have h1: "position s + 1 < length (source s)"
    by (simp add: s_def init_def)
  have h2: "(''|>'', PIPE) \<in> set two_char_table"
    by (simp add: two_char_table_def)
  have h3: "slice (source s) (position s) (position s + 2) = ''|>''"
    by (simp add: s_def init_def slice_def)
  have c: "scan_token s = Inr (advance 2 (add_token PIPE (PyStr ''|>'') s))"
    using two_char_operators_first [OF h1 h2 h3] by (rule conjunct1)
  show ?thesis
    using h1 h2 h3 c unfolding s_def by (intro conjI)
qed

subsection \<open>C2: the position a token records\<close>

text \<open>
  The kinds of token the number, string and identifier readers emit: the literals, the
  identifiers and every reserved word, the word operators \<^verbatim>\<open>and\<close>, \<^verbatim>\<open>or\<close> and \<^verbatim>\<open>not\<close>
  among them.
\<close>

definition word_kind :: "TokenType \<Rightarrow> bool" where
  "word_kind ty =
     (ty \<in> {INTEGER, FLOAT, STRING, IDENTIFIER, BOOLEAN, DEF, LET, IF, ELSE, LAMBDA, MATCH,
             QUANTUM, ASYNC, AWAIT, RETURN, IMPORT, MODULE, AND, OR, NOT})"

text \<open>
  The kinds of token the punctuation branches of the main loop and the operator reader
  emit: the symbolic operators, the punctuation and the delimiters.
\<close>

definition symbol_kind :: "TokenType \<Rightarrow> bool" where
  "symbol_kind ty =
     (ty \<in> {PLUS, MINUS, STAR, SLASH, PERCENT, POW, EQ, NEQ, LT, GT, LE, GE, ASSIGN, ARROW,
             PIPE, DOT, COLON, SEMICOLON, COMMA, LPAREN, RPAREN, LBRACKET, RBRACKET,
             LBRACE, RBRACE})"

lemma KEYWORDS_word_kind: "KEYWORDS v = Some t \<Longrightarrow> word_kind t"
  unfolding KEYWORDS_def word_kind_def by (drule map_of_SomeD) auto

lemma keyword_or_identifier_word_kind: "word_kind (keyword_or_identifier v)"
  using KEYWORDS_word_kind [of v]
  by (cases "KEYWORDS v") (simp_all add: keyword_or_identifier_def word_kind_def)

lemma punctuation_symbol_kind: "punctuation c = Some t \<Longrightarrow> symbol_kind t"
  by (auto simp: punctuation_def symbol_kind_def split: if_splits)

lemma one_char_operator_symbol_kind: "one_char_operator c = Some t \<Longrightarrow> symbol_kind t"
  by (auto simp: one_char_operator_def symbol_kind_def split: if_splits)

lemma two_char_operator_symbol_kind: "two_char_operator c = Some t \<Longrightarrow> symbol_kind t"
  by (auto simp: two_char_operator_def symbol_kind_def split: if_splits)

text \<open>
  What a pass appends: a token of a word kind at the position of the cursor after the
  pass, or a token of a symbol kind at the position of the cursor before it.
\<close>

definition trailing_token :: "Lexer \<Rightarrow> Lexer \<Rightarrow> Token \<Rightarrow> bool" where
  "trailing_token s s' t =
     (tokens s' = tokens s @ [t] \<and> word_kind (tok_type t)
      \<and> tok_line t = line s' \<and> tok_column t = column s')"

definition leading_token :: "Lexer \<Rightarrow> Lexer \<Rightarrow> Token \<Rightarrow> bool" where
  "leading_token s s' t =
     (tokens s' = tokens s @ [t] \<and> symbol_kind (tok_type t)
      \<and> tok_line t = line s \<and> tok_column t = column s)"

lemma read_number_token:
  assumes "position s < length (source s)" and "isdigit (source s ! position s)"
    and "read_number s = Inr s'"
  shows "(\<exists>t. trailing_token s s' t) \<and> line s' = line s \<and> column s < column s'"
proof -
  have "0 < length (takeWhile isdigit (drop (position s) (source s)))"
    using assms(1,2) by (rule takeWhile_first)
  with assms(3) show ?thesis
    by (auto simp: read_number_def read_digits_eq Let_def advance_def add_token_def
          trailing_token_def word_kind_def split: if_splits sum.splits)
qed

lemma read_identifier_token:
  assumes "position s < length (source s)"
    and "isalpha (source s ! position s) \<or> source s ! position s = CHR ''_''"
  shows "(\<exists>t. trailing_token s (read_identifier s) t)
    \<and> line (read_identifier s) = line s \<and> column s < column (read_identifier s)"
proof -
  let ?P = "\<lambda>c. isalnum c \<or> c \<in> set ''_?!''"
  have "?P (source s ! position s)"
    using assms(2) by (auto simp: isalpha_isalnum)
  with assms(1) have "0 < length (takeWhile ?P (drop (position s) (source s)))"
    by (rule takeWhile_first)
  then show ?thesis
    by (simp add: read_identifier_def read_identifier_chars_eq Let_def advance_def
          add_token_def trailing_token_def keyword_or_identifier_word_kind)
qed

lemma read_string_token:
  "(\<exists>t. trailing_token s (read_string quote s) t)
    \<and> line (read_string quote s) = line s \<and> column s < column (read_string quote s)"
  by (simp add: read_string_def read_string_chars_eq Let_def advance_def add_token_def
        trailing_token_def word_kind_def)

lemma read_one_char_operator_token:
  "(tokens (read_one_char_operator s) = tokens s
      \<or> (\<exists>t. leading_token s (read_one_char_operator s) t))
    \<and> line (read_one_char_operator s) = line s
    \<and> column s < column (read_one_char_operator s)"
proof (cases "one_char_operator (source s ! position s)")
  case None
  then show ?thesis
    by (simp add: read_one_char_operator_def Let_def advance_def)
next
  case (Some t)
  with one_char_operator_symbol_kind [OF Some] show ?thesis
    by (simp add: read_one_char_operator_def Let_def advance_def add_token_def
          leading_token_def)
qed

lemma read_operator_token:
  "(tokens (read_operator s) = tokens s \<or> (\<exists>t. leading_token s (read_operator s) t))
    \<and> line (read_operator s) = line s \<and> column s < column (read_operator s)"
proof (cases "position s + 1 < length (source s)")
  case False
  with read_one_char_operator_token [of s] show ?thesis
    by (simp add: read_operator_def)
next
  case True
  show ?thesis
  proof (cases "two_char_operator (slice (source s) (position s) (position s + 2))")
    case None
    with True read_one_char_operator_token [of s] show ?thesis
      by (simp add: read_operator_def Let_def)
  next
    case (Some t)
    with True two_char_operator_symbol_kind [OF Some] show ?thesis
      by (simp add: read_operator_def Let_def advance_def add_token_def leading_token_def)
  qed
qed

text \<open>
  The convention C2 states, for one pass of the main loop from \<open>s\<close> to \<open>s'\<close>: every
  token the pass appended carries the line and column of the cursor after the pass.
\<close>

definition records_trailing_position :: "Lexer \<Rightarrow> Lexer \<Rightarrow> bool" where
  "records_trailing_position s s' =
     list_all (\<lambda>t. tok_line t = line s' \<and> tok_column t = column s')
       (drop (length (tokens s)) (tokens s'))"

text \<open>
  C2 as stated fails for punctuation, delimiters and operators: their branches call
  \<^verbatim>\<open>_add_token\<close> first and move the cursor afterwards. For the source \<^verbatim>\<open>:\<close> the Colon
  token is recorded at column 1, the column where the lexeme starts, while the cursor
  after the lexeme is at column 2; the same holds for the operator \<^verbatim>\<open>+\<close>.
\<close>

theorem punctuation_position_counterexample:
  "scan_token (init '':'') =
     Inr \<lparr>source = '':'', position = 1, line = 1, column = 2,
          tokens = [Token COLON (PyStr '':'') 1 1], indent_stack = [0], warnings = []\<rparr>
   \<and> \<not> records_trailing_position (init '':'')
       \<lparr>source = '':'', position = 1, line = 1, column = 2,
        tokens = [Token COLON (PyStr '':'') 1 1], indent_stack = [0], warnings = []\<rparr>
   \<and> tokenize ''+'' = Inr [Token PLUS (PyStr ''+'') 1 1, Token EOF PyNone 1 2]"
  by code_simp

text \<open>
  C2 as amended, for a pass of the main loop on a character other than a newline. The
  pass leaves the line alone, moves the column forward, and appends at most one token.
  A token of kind Integer, Float, String, Identifier, Boolean or of a reserved word
  (\<^verbatim>\<open>def\<close> to \<^verbatim>\<open>module\<close>, and the word operators \<^verbatim>\<open>and\<close>, \<^verbatim>\<open>or\<close>, \<^verbatim>\<open>not\<close>) records the
  line and column the cursor has after the lexeme has been consumed. A token of a
  symbolic operator kind (Plus to Pipe), of a punctuation kind (Dot, Colon, Semicolon,
  Comma) or of a delimiter kind records the line and column the cursor has at the start
  of the lexeme. No token of another kind is appended, no kind is of both sorts, and a
  pass on a digit, a letter, an underscore or a quote always appends a token of the
  first sort.
\<close>

theorem token_position_convention:
  assumes "position s < length (source s)" and "scan_token s = Inr s'"
    and "source s ! position s \<noteq> CHR 0x0A"
  shows "line s' = line s \<and> column s < column s'
    \<and> (tokens s' = tokens s
        \<or> (\<exists>t. tokens s' = tokens s @ [t]
              \<and> (word_kind (tok_type t) \<and> tok_line t = line s' \<and> tok_column t = column s'
                  \<or> symbol_kind (tok_type t) \<and> tok_line t = line s
                      \<and> tok_column t = column s)))
    \<and> (isdigit (source s ! position s) \<or> isalpha (source s ! position s)
          \<or> source s ! position s \<in> {CHR ''_'', CHR 0x22, CHR 0x27}
        \<longrightarrow> (\<exists>t. tokens s' = tokens s @ [t] \<and> word_kind (tok_type t)
              \<and> tok_line t = line s' \<and> tok_column t = column s'))
    \<and> (\<forall>ty. \<not> (word_kind ty \<and> symbol_kind ty))"
proof -
  let ?c = "source s ! position s"
  have disjoint: "\<forall>ty. \<not> (word_kind ty \<and> symbol_kind ty)"
    by (auto simp: word_kind_def symbol_kind_def)
  consider (num) "isdigit ?c"
    | (ident) "\<not> isdigit ?c" "isalpha ?c \<or> ?c = CHR ''_''"
    | (str) "\<not> isdigit ?c" "\<not> (isalpha ?c \<or> ?c = CHR ''_'')"
        "?c = CHR 0x22 \<or> ?c = CHR 0x27"
    | (other) "\<not> isdigit ?c" "\<not> (isalpha ?c \<or> ?c = CHR ''_'')"
        "\<not> (?c = CHR 0x22 \<or> ?c = CHR 0x27)"
    by blast
  then have m: "line s' = line s \<and> column s < column s'
    \<and> (if isdigit ?c \<or> isalpha ?c \<or> ?c \<in> {CHR ''_'', CHR 0x22, CHR 0x27}
        then \<exists>t. trailing_token s s' t
        else tokens s' = tokens s \<or> (\<exists>t. leading_token s s' t))"
  proof cases
    case num
    with assms(2,3) have r: "read_number s = Inr s'"
      by (simp add: scan_token_def Let_def)
    from read_number_token [OF assms(1) num r] num show ?thesis
      by simp
  next
    case ident
    with assms(2,3) have r: "s' = read_identifier s"
      by (simp add: scan_token_def Let_def)
    from read_identifier_token [OF assms(1) ident(2)] ident r show ?thesis
      by auto
  next
    case str
    with assms(2,3) have r: "s' = read_string ?c s"
      by (simp add: scan_token_def Let_def)
    from read_string_token [of s ?c] str r show ?thesis
      by auto
  next
    case other
    show ?thesis
    proof (cases "punctuation ?c")
      case (Some t)
      with other assms(2,3) have r: "s' = advance 1 (add_token t (PyStr [?c]) s)"
        by (simp add: scan_token_def Let_def)
      have "leading_token s s' (Token t (PyStr [?c]) (line s) (column s))"
        using punctuation_symbol_kind [OF Some]
        by (simp add: r advance_def add_token_def leading_token_def)
      then have "\<exists>t. leading_token s s' t" ..
      moreover have "line s' = line s \<and> column s < column s'"
        by (simp add: r advance_def add_token_def)
      ultimately show ?thesis
        using other by simp
    next
      case None
      with other assms(2,3) have "s' = read_operator s"
        by (simp add: scan_token_def Let_def)
      with other read_operator_token [of s] show ?thesis
        by simp
    qed
  qed
  from m have lc: "line s' = line s" "column s < column s'"
    by simp_all
  let ?P = "\<lambda>t. tokens s' = tokens s @ [t]
      \<and> (word_kind (tok_type t) \<and> tok_line t = line s' \<and> tok_column t = column s'
          \<or> symbol_kind (tok_type t) \<and> tok_line t = line s \<and> tok_column t = column s)"
  let ?Q = "\<lambda>t. tokens s' = tokens s @ [t] \<and> word_kind (tok_type t)
      \<and> tok_line t = line s' \<and> tok_column t = column s'"
  show ?thesis
  proof (cases "isdigit ?c \<or> isalpha ?c \<or> ?c \<in> {CHR ''_'', CHR 0x22, CHR 0x27}")
    case True
    with m obtain t where "trailing_token s s' t"
      by auto
    then have q: "?Q t"
      by (simp add: trailing_token_def)
    then have "?P t"
      by simp
    then have "\<exists>t. ?P t" ..
    moreover from q have "\<exists>t. ?Q t" ..
    ultimately show ?thesis
      using lc disjoint by simp
  next
    case False
    with m have "tokens s' = tokens s \<or> (\<exists>t. leading_token s s' t)"
      by simp
    then have "tokens s' = tokens s \<or> (\<exists>t. ?P t)"
    proof
      assume "tokens s' = tokens s"
      then show ?thesis ..
    next
      assume "\<exists>t. leading_token s s' t"
      then obtain t where "leading_token s s' t" ..
      then have "?P t"
        by (simp add: leading_token_def)
      then have "\<exists>t. ?P t" ..
      then show ?thesis ..
    qed
    with False lc disjoint show ?thesis
      by simp
  qed
qed

text \<open>
  The amended C2 at the word operator of the source \<^verbatim>\<open>and\<close>: one And token, recorded
  at the position of the cursor after the word.
\<close>

theorem token_position_convention_witness:
  "position (init ''and'') < length (source (init ''and''))
   \<and> scan_token (init ''and'') = Inr (add_token AND (PyStr ''and'') (advance 3 (init ''and'')))
   \<and> source (init ''and'') ! position (init ''and'') \<noteq> CHR 0x0A
   \<and> line (add_token AND (PyStr ''and'') (advance 3 (init ''and''))) = line (init ''and'')
   \<and> column (init ''and'') < column (add_token AND (PyStr ''and'') (advance 3 (init ''and'')))
   \<and> (\<exists>t. tokens (add_token AND (PyStr ''and'') (advance 3 (init ''and'')))
          = tokens (init ''and'') @ [t]
        \<and> word_kind (tok_type t)
        \<and> tok_line t = line (add_token AND (PyStr ''and'') (advance 3 (init ''and'')))
        \<and> tok_column t = column (add_token AND (PyStr ''and'') (advance 3 (init ''and''))))"
proof -
  define s where "s = init ''and''"
  define s' where "s' = add_token AND (PyStr ''and'') (advance 3 (init ''and''))"
  have h1: "position s < length (source s)"
    by (simp add: s_def init_def)
  have h2: "scan_token s = Inr s'"
    unfolding s_def s'_def by code_simp
  have h3: "source s ! position s \<noteq> CHR 0x0A"
    by (simp add: s_def init_def)
  have h4: "isdigit (source s ! position s) \<or> isalpha (source s ! position s)
      \<or> source s ! position s \<in> {CHR ''_'', CHR 0x22, CHR 0x27}"
    by (simp add: s_def init_def isalpha_def cp_def)
  note c = token_position_convention [OF h1 h2 h3]
  note d = c [THEN conjunct2, THEN conjunct2, THEN conjunct2, THEN conjunct1, THEN mp, OF h4]
  show ?thesis
    using h1 h2 h3 c [THEN conjunct1] c [THEN conjunct2, THEN conjunct1] d
    unfolding s_def s'_def by (intro conjI)
qed

subsection \<open>C7: reserved words and maximal munch\<close>

text \<open>
  The identifier reader in closed form, and the whole of \<^verbatim>\<open>tokenize\<close> on a source that
  is one identifier-shaped word.
\<close>

lemma slice_takeWhile:
  "slice xs p (p + length (takeWhile P (drop p xs))) = takeWhile P (drop p xs)"
  by (simp add: slice_def takeWhile_eq_take [symmetric])

lemma read_identifier_eq:
  "read_identifier s =
     add_token
       (keyword_or_identifier
          (takeWhile (\<lambda>c. isalnum c \<or> c \<in> set ''_?!'') (drop (position s) (source s))))
       (PyStr (takeWhile (\<lambda>c. isalnum c \<or> c \<in> set ''_?!'') (drop (position s) (source s))))
       (advance
          (length (takeWhile (\<lambda>c. isalnum c \<or> c \<in> set ''_?!'')
             (drop (position s) (source s)))) s)"
proof -
  let ?P = "\<lambda>c. isalnum c \<or> c \<in> set ''_?!''"
  let ?lex = "takeWhile ?P (drop (position s) (source s))"
  have "slice (source (advance (length ?lex) s)) (position s)
      (position (advance (length ?lex) s)) = ?lex"
    using slice_takeWhile [of "source s" "position s" ?P] by (simp add: advance_def)
  then show ?thesis
    by (simp add: read_identifier_def read_identifier_chars_eq Let_def)
qed

lemma identifier_start_dispatch:
  "isalpha c \<or> c = CHR ''_'' \<Longrightarrow>
   c \<noteq> CHR '' '' \<and> c \<noteq> CHR 0x09 \<and> c \<noteq> CHR ''#'' \<and> c \<noteq> CHR 0x0A \<and> \<not> isdigit c"
  by (auto simp: isalpha_def isdigit_def isdecimal_def cp_def)

lemma skip_whitespace_and_comments_stop:
  assumes "position s < length (source s)"
    and "source s ! position s \<notin> {CHR '' '', CHR 0x09, CHR ''#''}"
  shows "skip_whitespace_and_comments s = s"
  using assms by (subst skip_whitespace_and_comments.simps) (simp add: Let_def)

lemma tokenize_loop_end:
  "\<not> position s < length (source s) \<Longrightarrow> tokenize_loop s = Inr s"
  by (subst tokenize_loop.simps) simp

lemma tokenize_loop_step:
  assumes "position s < length (source s)"
    and "position (skip_whitespace_and_comments s) < length (source s)"
  shows "tokenize_loop s =
     (case scan_token (skip_whitespace_and_comments s) of
        Inl e \<Rightarrow> Inl e | Inr s2 \<Rightarrow> tokenize_loop s2)"
proof -
  obtain p c where "skip_whitespace_and_comments s = s\<lparr>position := p, column := c\<rparr>"
    using skip_whitespace_and_comments_frame [of s] by blast
  then have "source (skip_whitespace_and_comments s) = source s"
    by simp
  with assms show ?thesis
    by (subst tokenize_loop.simps) (simp add: Let_def)
qed

lemma tokenize_word:
  assumes "w \<noteq> []" and "isalpha (hd w) \<or> hd w = CHR ''_''"
    and "list_all (\<lambda>c. isalnum c \<or> c \<in> set ''_?!'') w"
  shows "tokenize w =
     Inr [Token (keyword_or_identifier w) (PyStr w) 1 (1 + int (length w)),
          Token EOF PyNone 1 (1 + int (length w))]"
proof -
  let ?P = "\<lambda>c. isalnum c \<or> c \<in> set ''_?!''"
  let ?s = "init w"
  let ?s2 = "add_token (keyword_or_identifier w) (PyStr w) (advance (length w) ?s)"
  have pos: "position ?s < length (source ?s)"
    using assms(1) by (simp add: init_def)
  have c0: "source ?s ! position ?s = hd w"
    using assms(1) by (simp add: init_def hd_conv_nth)
  note d = identifier_start_dispatch [OF assms(2)]
  have skip: "skip_whitespace_and_comments ?s = ?s"
    using pos c0 d by (intro skip_whitespace_and_comments_stop) auto
  have tw: "takeWhile ?P (drop (position ?s) (source ?s)) = w"
    using assms(3) by (simp add: init_def list_all_iff)
  have "scan_token ?s = Inr (read_identifier ?s)"
    using c0 d assms(2) by (simp add: scan_token_def Let_def)
  also have "read_identifier ?s = ?s2"
    by (subst read_identifier_eq) (simp only: tw)
  finally have scan: "scan_token ?s = Inr ?s2" .
  have "tokenize_loop ?s = tokenize_loop ?s2"
    using tokenize_loop_step [of ?s] pos skip scan by simp
  also have "\<dots> = Inr ?s2"
    by (rule tokenize_loop_end) (simp add: init_def advance_def add_token_def)
  finally show ?thesis
    by (simp add: tokenize_def tokenize_lexer_def init_def advance_def add_token_def)
qed

lemma extended_boolean_not_keyword:
  "ext \<noteq> [] \<Longrightarrow>
   keyword_or_identifier (''true'' @ ext) = IDENTIFIER
   \<and> keyword_or_identifier (''false'' @ ext) = IDENTIFIER"
  by (simp add: keyword_or_identifier_def KEYWORDS_def)

lemma boolean_keywords:
  "keyword_or_identifier ''true'' = BOOLEAN \<and> keyword_or_identifier ''false'' = BOOLEAN"
  by (simp add: keyword_or_identifier_def KEYWORDS_def)

text \<open>
  C7: the identifier reader takes the longest run of alphanumeric characters,
  underscores, question marks and exclamation marks at the cursor, looks the whole run up
  in the reserved-word table and emits one token of the kind found there, or Identifier,
  with the run as value. So \<^verbatim>\<open>true\<close> and \<^verbatim>\<open>false\<close> each yield one Boolean token
  carrying the text, \<^verbatim>\<open>truee\<close> yields one Identifier token, and so does every proper
  extension of \<^verbatim>\<open>true\<close> or \<^verbatim>\<open>false\<close> by identifier characters.
\<close>

theorem reserved_word_classification:
  fixes s :: Lexer and ext :: string
  defines "lexeme \<equiv>
    takeWhile (\<lambda>c. isalnum c \<or> c \<in> set ''_?!'') (drop (position s) (source s))"
  shows "read_identifier s =
      add_token (keyword_or_identifier lexeme) (PyStr lexeme) (advance (length lexeme) s)
    \<and> tokenize ''true'' = Inr [Token BOOLEAN (PyStr ''true'') 1 5, Token EOF PyNone 1 5]
    \<and> tokenize ''false'' = Inr [Token BOOLEAN (PyStr ''false'') 1 6, Token EOF PyNone 1 6]
    \<and> tokenize ''truee''
        = Inr [Token IDENTIFIER (PyStr ''truee'') 1 6, Token EOF PyNone 1 6]
    \<and> (ext \<noteq> [] \<and> list_all (\<lambda>c. isalnum c \<or> c \<in> set ''_?!'') ext \<longrightarrow>
         tokenize (''true'' @ ext)
           = Inr [Token IDENTIFIER (PyStr (''true'' @ ext)) 1 (5 + int (length ext)),
                  Token EOF PyNone 1 (5 + int (length ext))]
         \<and> tokenize (''false'' @ ext)
           = Inr [Token IDENTIFIER (PyStr (''false'' @ ext)) 1 (6 + int (length ext)),
                  Token EOF PyNone 1 (6 + int (length ext))])"
proof (intro conjI impI)
  show "read_identifier s =
      add_token (keyword_or_identifier lexeme) (PyStr lexeme) (advance (length lexeme) s)"
    unfolding lexeme_def by (rule read_identifier_eq)
  show "tokenize ''true'' = Inr [Token BOOLEAN (PyStr ''true'') 1 5, Token EOF PyNone 1 5]"
    by code_simp
  show "tokenize ''false'' = Inr [Token BOOLEAN (PyStr ''false'') 1 6, Token EOF PyNone 1 6]"
    by code_simp
  show "tokenize ''truee''
      = Inr [Token IDENTIFIER (PyStr ''truee'') 1 6, Token EOF PyNone 1 6]"
    by code_simp
next
  let ?P = "\<lambda>c. isalnum c \<or> c \<in> set ''_?!''"
  assume a: "ext \<noteq> [] \<and> list_all ?P ext"
  have t: "list_all ?P ''true''" and f: "list_all ?P ''false''"
    by (simp_all add: isalnum_def isalpha_def cp_def)
  have ht: "isalpha (hd (''true'' @ ext)) \<or> hd (''true'' @ ext) = CHR ''_''"
    and hf: "isalpha (hd (''false'' @ ext)) \<or> hd (''false'' @ ext) = CHR ''_''"
    by (simp_all add: isalpha_def cp_def)
  have "tokenize (''true'' @ ext) =
     Inr [Token (keyword_or_identifier (''true'' @ ext)) (PyStr (''true'' @ ext)) 1
            (1 + int (length (''true'' @ ext))),
          Token EOF PyNone 1 (1 + int (length (''true'' @ ext)))]"
    using a t by (intro tokenize_word ht) simp_all
  then show "tokenize (''true'' @ ext)
      = Inr [Token IDENTIFIER (PyStr (''true'' @ ext)) 1 (5 + int (length ext)),
             Token EOF PyNone 1 (5 + int (length ext))]"
    using a extended_boolean_not_keyword [of ext] by simp
  have "tokenize (''false'' @ ext) =
     Inr [Token (keyword_or_identifier (''false'' @ ext)) (PyStr (''false'' @ ext)) 1
            (1 + int (length (''false'' @ ext))),
          Token EOF PyNone 1 (1 + int (length (''false'' @ ext)))]"
    using a f by (intro tokenize_word hf) simp_all
  then show "tokenize (''false'' @ ext)
      = Inr [Token IDENTIFIER (PyStr (''false'' @ ext)) 1 (6 + int (length ext)),
             Token EOF PyNone 1 (6 + int (length ext))]"
    using a extended_boolean_not_keyword [of ext] by simp
qed

text \<open>C7 at the extension \<^verbatim>\<open>e?\<close>.\<close>

theorem reserved_word_classification_witness:
  "''e?'' \<noteq> [] \<and> list_all (\<lambda>c. isalnum c \<or> c \<in> set ''_?!'') ''e?''
   \<and> tokenize (''true'' @ ''e?'')
       = Inr [Token IDENTIFIER (PyStr (''true'' @ ''e?'')) 1 (5 + int (length ''e?'')),
              Token EOF PyNone 1 (5 + int (length ''e?''))]
   \<and> tokenize (''false'' @ ''e?'')
       = Inr [Token IDENTIFIER (PyStr (''false'' @ ''e?'')) 1 (6 + int (length ''e?'')),
              Token EOF PyNone 1 (6 + int (length ''e?''))]"
proof -
  have h: "''e?'' \<noteq> [] \<and> list_all (\<lambda>c. isalnum c \<or> c \<in> set ''_?!'') ''e?''"
    by (simp add: isalnum_def isalpha_def cp_def)
  note c = reserved_word_classification [of "init []" "''e?''",
      THEN conjunct2, THEN conjunct2, THEN conjunct2, THEN conjunct2, THEN mp, OF h]
  show ?thesis
    using h [THEN conjunct1] h [THEN conjunct2] c [THEN conjunct1] c [THEN conjunct2]
    by (intro conjI)
qed

subsection \<open>C9: the value of a string token\<close>

lemma read_string_eq:
  "read_string quote s =
     add_token STRING
       (PyStr (decode_escapes (raw_body quote (drop (Suc (position s)) (source s)))))
       (if Suc (position s) + string_steps quote (drop (Suc (position s)) (source s))
             < length (source s)
        then advance (Suc (Suc (string_steps quote (drop (Suc (position s)) (source s))))) s
        else advance (Suc (string_steps quote (drop (Suc (position s)) (source s)))) s)"
  by (simp add: read_string_def read_string_chars_eq Let_def advance_def add_token_def
        add.commute)

lemma raw_body_prefix:
  "cs = raw_body quote cs \<or> (\<exists>after. cs = raw_body quote cs @ quote # after)"
  by (induction quote cs rule: raw_body.induct) auto

text \<open>
  C9 as stated takes the text up to the first occurrence of the quote character, whether
  or not that occurrence is escaped, and decodes it:
\<close>

definition value_to_first_quote :: "char \<Rightarrow> string \<Rightarrow> string" where
  "value_to_first_quote quote cs = decode_escapes (takeWhile (\<lambda>c. c \<noteq> quote) cs)"

text \<open>
  The string reader does not stop at a quote character that follows a backslash: the
  pair is an escape and stands for the quote itself. For the source of the six characters
  quote, \<^verbatim>\<open>a\<close>, backslash, quote, \<^verbatim>\<open>b\<close>, quote, the token's value is the three characters
  \<^verbatim>\<open>a\<close>, quote, \<^verbatim>\<open>b\<close>, while the decoded text before the first quote character is
  \<^verbatim>\<open>a\<close> alone. So C9 fails as stated.
\<close>

theorem escaped_quote_counterexample:
  "tokens (read_string (CHR 0x22)
      (init [CHR 0x22, CHR ''a'', CHR 0x5C, CHR 0x22, CHR ''b'', CHR 0x22]))
     = [Token STRING (PyStr [CHR ''a'', CHR 0x22, CHR ''b'']) 1 7]
   \<and> value_to_first_quote (CHR 0x22) [CHR ''a'', CHR 0x5C, CHR 0x22, CHR ''b'', CHR 0x22]
     = ''a''"
  by code_simp

lemma quote_dispatch:
  "c = CHR 0x22 \<or> c = CHR 0x27 \<Longrightarrow>
   c \<noteq> CHR 0x0A \<and> \<not> isdigit c \<and> \<not> isalpha c \<and> c \<noteq> CHR ''_''"
  by (auto simp: isdigit_def isdecimal_def isalpha_def cp_def)

text \<open>
  C9 as amended: when the main loop is at a quote character, double or single, it emits
  exactly one String token, whose value is the escape-decoded text between that opening
  quote and the first occurrence of the same quote character that is not the second
  character of an escape pair; the other quote character does not close the literal.
  That text runs to the end of the input when there is no such occurrence, and no error
  is raised then (the reader has no failure path). In decoding, backslash-n is a newline,
  backslash-t a tab, a double backslash one backslash, a backslash before any other
  character that character itself, every other character itself, and a backslash that
  ends the input nothing.
\<close>

theorem string_literal_value:
  fixes s :: Lexer and e c :: char and cs :: string
  assumes "position s < length (source s)"
    and "source s ! position s = CHR 0x22 \<or> source s ! position s = CHR 0x27"
  defines "quote \<equiv> source s ! position s"
    and "rest \<equiv> drop (Suc (position s)) (source s)"
  shows "(\<exists>s'. scan_token s = Inr s'
        \<and> tokens s' = tokens s @ [Token STRING (PyStr (decode_escapes (raw_body quote rest)))
                                  (line s') (column s')])
    \<and> (rest = raw_body quote rest \<or> (\<exists>after. rest = raw_body quote rest @ quote # after))
    \<and> decode_escapes (CHR 0x5C # e # cs) = escape e # decode_escapes cs
    \<and> (c \<noteq> CHR 0x5C \<longrightarrow> decode_escapes (c # cs) = c # decode_escapes cs)
    \<and> decode_escapes [CHR 0x5C] = []
    \<and> escape (CHR ''n'') = CHR 0x0A \<and> escape (CHR ''t'') = CHR 0x09
    \<and> escape (CHR 0x5C) = CHR 0x5C
    \<and> (e \<noteq> CHR ''n'' \<and> e \<noteq> CHR ''t'' \<longrightarrow> escape e = e)
    \<and> tokenize [CHR 0x27, CHR ''a'', CHR 0x22, CHR ''b'', CHR 0x27]
        = Inr [Token STRING (PyStr [CHR ''a'', CHR 0x22, CHR ''b'']) 1 6,
               Token EOF PyNone 1 6]
    \<and> tokenize [CHR 0x22, CHR ''a'', CHR 0x27, CHR ''b'', CHR 0x22]
        = Inr [Token STRING (PyStr [CHR ''a'', CHR 0x27, CHR ''b'']) 1 6,
               Token EOF PyNone 1 6]
    \<and> tokenize [CHR 0x22, CHR ''a'', CHR 0x5C, CHR ''n'', CHR ''b'', CHR 0x22]
        = Inr [Token STRING (PyStr [CHR ''a'', CHR 0x0A, CHR ''b'']) 1 7,
               Token EOF PyNone 1 7]
    \<and> tokenize [CHR 0x27, CHR ''a'', CHR ''b'']
        = Inr [Token STRING (PyStr ''ab'') 1 4, Token EOF PyNone 1 4]"
proof (intro conjI impI)
  have d: "source s ! position s \<noteq> CHR 0x0A \<and> \<not> isdigit (source s ! position s)
      \<and> \<not> isalpha (source s ! position s) \<and> source s ! position s \<noteq> CHR ''_''"
    using assms(2) by (rule quote_dispatch)
  have sc: "scan_token s = Inr (read_string quote s)"
    using d assms(2) unfolding quote_def by (simp add: scan_token_def Let_def)
  have "tokens (read_string quote s) =
      tokens s @ [Token STRING (PyStr (decode_escapes (raw_body quote rest)))
                    (line (read_string quote s)) (column (read_string quote s))]"
    unfolding rest_def by (subst (1 2 3) read_string_eq) (simp add: advance_def add_token_def)
  with sc show "\<exists>s'. scan_token s = Inr s'
        \<and> tokens s' = tokens s @ [Token STRING (PyStr (decode_escapes (raw_body quote rest)))
                                  (line s') (column s')]"
    by blast
  show "rest = raw_body quote rest \<or> (\<exists>after. rest = raw_body quote rest @ quote # after)"
    by (rule raw_body_prefix)
  show "decode_escapes (CHR 0x5C # e # cs) = escape e # decode_escapes cs"
    by simp
  show "decode_escapes (c # cs) = c # decode_escapes cs" if "c \<noteq> CHR 0x5C"
    using that by (rule decode_escapes_plain)
  show "decode_escapes [CHR 0x5C] = []"
    by simp
  show "escape (CHR ''n'') = CHR 0x0A" "escape (CHR ''t'') = CHR 0x09"
    "escape (CHR 0x5C) = CHR 0x5C"
    by (simp_all add: escape_def)
  show "escape e = e" if "e \<noteq> CHR ''n'' \<and> e \<noteq> CHR ''t''"
    using that by (simp add: escape_def)
  show "tokenize [CHR 0x27, CHR ''a'', CHR 0x22, CHR ''b'', CHR 0x27]
        = Inr [Token STRING (PyStr [CHR ''a'', CHR 0x22, CHR ''b'']) 1 6,
               Token EOF PyNone 1 6]"
    by code_simp
  show "tokenize [CHR 0x22, CHR ''a'', CHR 0x27, CHR ''b'', CHR 0x22]
        = Inr [Token STRING (PyStr [CHR ''a'', CHR 0x27, CHR ''b'']) 1 6,
               Token EOF PyNone 1 6]"
    by code_simp
  show "tokenize [CHR 0x22, CHR ''a'', CHR 0x5C, CHR ''n'', CHR ''b'', CHR 0x22]
        = Inr [Token STRING (PyStr [CHR ''a'', CHR 0x0A, CHR ''b'']) 1 7,
               Token EOF PyNone 1 7]"
    by code_simp
  show "tokenize [CHR 0x27, CHR ''a'', CHR ''b'']
        = Inr [Token STRING (PyStr ''ab'') 1 4, Token EOF PyNone 1 4]"
    by code_simp
qed

text \<open>
  The amended C9 at a single-quoted literal that holds a double quote and an escaped
  single quote: the source of the seven characters single quote, \<^verbatim>\<open>a\<close>, double quote,
  backslash, single quote, \<^verbatim>\<open>b\<close>, single quote.
\<close>

theorem string_literal_value_witness:
  "position (init [CHR 0x27, CHR ''a'', CHR 0x22, CHR 0x5C, CHR 0x27, CHR ''b'', CHR 0x27])
     < length (source
         (init [CHR 0x27, CHR ''a'', CHR 0x22, CHR 0x5C, CHR 0x27, CHR ''b'', CHR 0x27]))
   \<and> source (init [CHR 0x27, CHR ''a'', CHR 0x22, CHR 0x5C, CHR 0x27, CHR ''b'', CHR 0x27])
       ! position (init [CHR 0x27, CHR ''a'', CHR 0x22, CHR 0x5C, CHR 0x27, CHR ''b'', CHR 0x27])
     = CHR 0x27
   \<and> (\<exists>s'. scan_token
          (init [CHR 0x27, CHR ''a'', CHR 0x22, CHR 0x5C, CHR 0x27, CHR ''b'', CHR 0x27])
          = Inr s'
        \<and> tokens s' = [Token STRING (PyStr [CHR ''a'', CHR 0x22, CHR 0x27, CHR ''b''])
                         (line s') (column s')])
   \<and> CHR ''a'' \<noteq> CHR 0x5C
   \<and> decode_escapes (CHR ''a'' # [CHR 0x5C, CHR 0x27])
       = CHR ''a'' # decode_escapes [CHR 0x5C, CHR 0x27]
   \<and> CHR 0x27 \<noteq> CHR ''n'' \<and> CHR 0x27 \<noteq> CHR ''t''
   \<and> escape (CHR 0x27) = CHR 0x27"
proof -
  define s where
    "s = init [CHR 0x27, CHR ''a'', CHR 0x22, CHR 0x5C, CHR 0x27, CHR ''b'', CHR 0x27]"
  have h1: "position s < length (source s)"
    by (simp add: s_def init_def)
  have h2: "source s ! position s = CHR 0x27"
    by (simp add: s_def init_def)
  have h2': "source s ! position s = CHR 0x22 \<or> source s ! position s = CHR 0x27"
    using h2 by simp
  note t = string_literal_value [OF h1 h2', where e = "CHR 0x27" and c = "CHR ''a''"
      and cs = "[CHR 0x5C, CHR 0x27]"]
  have v: "decode_escapes (raw_body (source s ! position s) (drop (Suc (position s)) (source s)))
      = [CHR ''a'', CHR 0x22, CHR 0x27, CHR ''b'']"
    unfolding s_def by code_simp
  have e: "tokens s = []"
    by (simp add: s_def init_def)
  have c0: "\<exists>s'. scan_token s = Inr s'
      \<and> tokens s' = [Token STRING (PyStr [CHR ''a'', CHR 0x22, CHR 0x27, CHR ''b''])
                       (line s') (column s')]"
    using t [THEN conjunct1] unfolding v e by simp
  have h3: "CHR ''a'' \<noteq> CHR 0x5C"
    by simp
  have h4: "CHR 0x27 \<noteq> CHR ''n'' \<and> CHR 0x27 \<noteq> CHR ''t''"
    by simp
  have c1: "decode_escapes (CHR ''a'' # [CHR 0x5C, CHR 0x27])
      = CHR ''a'' # decode_escapes [CHR 0x5C, CHR 0x27]"
    using t h3 by blast
  have c2: "escape (CHR 0x27) = CHR 0x27"
    using t h4 by blast
  show ?thesis
    using h1 h2 c0 h3 c1 h4 [THEN conjunct1] h4 [THEN conjunct2] c2 unfolding s_def
    by (intro conjI)
qed

subsection \<open>C10: the indentation stack is never used\<close>

text \<open>
  The states of the lexer during a run of \<^verbatim>\<open>tokenize\<close>, taken between the steps of the
  method: the initial state, the state after a call of the whitespace skipper, the state
  after a pass of the dispatch that raised no error, and the state after the final
  \<^verbatim>\<open>_add_token\<close>. The set has every state a run passes through at these points, also
  the states of a run that ends with an error.
\<close>

inductive_set reachable :: "string \<Rightarrow> Lexer set" for src :: string where
  start: "init src \<in> reachable src"
| skip: "s \<in> reachable src \<Longrightarrow> skip_whitespace_and_comments s \<in> reachable src"
| scan: "s \<in> reachable src \<Longrightarrow> position s < length (source s) \<Longrightarrow> scan_token s = Inr s'
    \<Longrightarrow> s' \<in> reachable src"
| finish: "s \<in> reachable src \<Longrightarrow> add_token EOF PyNone s \<in> reachable src"

lemma tokenize_loop_unfold:
  "position s < length (source s) \<Longrightarrow>
   tokenize_loop s =
     (if length (source (skip_whitespace_and_comments s))
           \<le> position (skip_whitespace_and_comments s)
      then Inr (skip_whitespace_and_comments s)
      else (case scan_token (skip_whitespace_and_comments s) of
              Inl e \<Rightarrow> Inl e | Inr s2 \<Rightarrow> tokenize_loop s2))"
  by (subst tokenize_loop.simps) (simp add: Let_def)


lemma tokenize_loop_reachable:
  "s \<in> reachable src \<Longrightarrow> tokenize_loop s = Inr s' \<Longrightarrow> s' \<in> reachable src"
proof (induction s rule: tokenize_loop.induct)
  case (1 s)
  show ?case
  proof (cases "position s < length (source s)")
    case False
    then have "tokenize_loop s = Inr s"
      by (rule tokenize_loop_end)
    with "1.prems" show ?thesis
      by simp
  next
    case True
    let ?s1 = "skip_whitespace_and_comments s"
    note u = tokenize_loop_unfold [OF True]
    have r1: "?s1 \<in> reachable src"
      using "1.prems"(1) by (rule reachable.skip)
    show ?thesis
    proof (cases "length (source ?s1) \<le> position ?s1")
      case stop: True
      then have "tokenize_loop s = Inr ?s1"
        by (simp only: u if_True)
      with "1.prems"(2) have "s' = ?s1"
        by simp
      with r1 show ?thesis by simp
    next
      case go: False
      then have u2: "tokenize_loop s =
          (case scan_token ?s1 of Inl e \<Rightarrow> Inl e | Inr s2 \<Rightarrow> tokenize_loop s2)"
        by (simp only: u if_False)
      show ?thesis
      proof (cases "scan_token ?s1")
        case (Inl e)
        then have "tokenize_loop s = Inl e"
          by (simp only: u2 sum.case)
        with "1.prems"(2) show ?thesis
          by simp
      next
        case (Inr s2)
        then have "tokenize_loop s = tokenize_loop s2"
          by (simp only: u2 sum.case)
        with "1.prems"(2) have l: "tokenize_loop s2 = Inr s'"
          by simp
        have lt: "position ?s1 < length (source ?s1)"
          using go by simp
        have r2: "s2 \<in> reachable src"
          using r1 lt Inr by (rule reachable.scan)
        show ?thesis
          using True refl go Inr r2 l by (rule "1.IH")
      qed
    qed
  qed
qed


lemma tokenize_lexer_reachable:
  assumes "tokenize_lexer src = Inr s"
  shows "s \<in> reachable src"
proof (cases "tokenize_loop (init src)")
  case (Inl e)
  with assms show ?thesis
    by (simp add: tokenize_lexer_def)
next
  case (Inr s1)
  have "s1 \<in> reachable src"
    using reachable.start Inr by (rule tokenize_loop_reachable)
  then have "add_token EOF PyNone s1 \<in> reachable src"
    by (rule reachable.finish)
  with assms Inr show ?thesis
    by (simp add: tokenize_lexer_def)
qed

text \<open>A token that is neither an Indent nor a Dedent token.\<close>

definition no_indentation_token :: "Token \<Rightarrow> bool" where
  "no_indentation_token t = (tok_type t \<noteq> INDENT \<and> tok_type t \<noteq> DEDENT)"

lemma KEYWORDS_not_indentation:
  "KEYWORDS v = Some t \<Longrightarrow> t \<noteq> INDENT \<and> t \<noteq> DEDENT"
  unfolding KEYWORDS_def by (drule map_of_SomeD) auto

lemma keyword_or_identifier_not_indentation:
  "keyword_or_identifier v \<noteq> INDENT \<and> keyword_or_identifier v \<noteq> DEDENT"
  using KEYWORDS_not_indentation [of v]
  by (cases "KEYWORDS v") (simp_all add: keyword_or_identifier_def)

lemma punctuation_not_indentation:
  "punctuation c = Some t \<Longrightarrow> t \<noteq> INDENT \<and> t \<noteq> DEDENT"
  by (auto simp: punctuation_def split: if_splits)

lemma one_char_operator_not_indentation:
  "one_char_operator c = Some t \<Longrightarrow> t \<noteq> INDENT \<and> t \<noteq> DEDENT"
  by (auto simp: one_char_operator_def split: if_splits)

lemma two_char_operator_not_indentation:
  "two_char_operator c = Some t \<Longrightarrow> t \<noteq> INDENT \<and> t \<noteq> DEDENT"
  by (auto simp: two_char_operator_def split: if_splits)


lemma read_operator_indentation:
  assumes "list_all no_indentation_token (tokens s)"
  shows "indent_stack (read_operator s) = indent_stack s
    \<and> list_all no_indentation_token (tokens (read_operator s))"
proof -
  have one: "indent_stack (read_one_char_operator s) = indent_stack s
      \<and> list_all no_indentation_token (tokens (read_one_char_operator s))"
  proof (cases "one_char_operator (source s ! position s)")
    case None
    with assms show ?thesis
      by (simp add: read_one_char_operator_def Let_def advance_def)
  next
    case (Some t)
    with assms one_char_operator_not_indentation [OF Some] show ?thesis
      by (simp add: read_one_char_operator_def Let_def advance_def add_token_def
            no_indentation_token_def)
  qed
  show ?thesis
  proof (cases "position s + 1 < length (source s)")
    case False
    with one show ?thesis
      by (simp add: read_operator_def)
  next
    case True
    show ?thesis
    proof (cases "two_char_operator (slice (source s) (position s) (position s + 2))")
      case None
      with True one show ?thesis
        by (simp add: read_operator_def Let_def)
    next
      case (Some t)
      with True assms two_char_operator_not_indentation [OF Some] show ?thesis
        by (simp add: read_operator_def Let_def advance_def add_token_def
              no_indentation_token_def)
    qed
  qed
qed

lemma read_number_indentation:
  assumes "read_number s = Inr s'" and "list_all no_indentation_token (tokens s)"
  shows "indent_stack s' = indent_stack s \<and> list_all no_indentation_token (tokens s')"
  using assms
  by (auto simp: read_number_def read_digits_eq Let_def advance_def add_token_def
        no_indentation_token_def split: if_splits sum.splits)


lemma scan_token_indentation:
  assumes "scan_token s = Inr s'"
    and "list_all no_indentation_token (tokens s)"
  shows "indent_stack s' = indent_stack s \<and> list_all no_indentation_token (tokens s')"
proof -
  let ?c = "source s ! position s"
  consider (nl) "?c = CHR 0x0A"
    | (num) "?c \<noteq> CHR 0x0A" "isdigit ?c"
    | (ident) "?c \<noteq> CHR 0x0A" "\<not> isdigit ?c" "isalpha ?c \<or> ?c = CHR ''_''"
    | (str) "?c \<noteq> CHR 0x0A" "\<not> isdigit ?c" "\<not> (isalpha ?c \<or> ?c = CHR ''_'')"
        "?c = CHR 0x22 \<or> ?c = CHR 0x27"
    | (other) "?c \<noteq> CHR 0x0A" "\<not> isdigit ?c" "\<not> (isalpha ?c \<or> ?c = CHR ''_'')"
        "\<not> (?c = CHR 0x22 \<or> ?c = CHR 0x27)"
    by blast
  then show ?thesis
  proof cases
    case nl
    with assms(1) have "s' = s\<lparr>position := position s + 1, line := line s + 1, column := 1,
        tokens := tokens s @ [Token NEWLINE (PyStr [CHR 0x0A]) (line s) 1]\<rparr>"
      by (simp add: scan_token_def Let_def)
    with assms(2) show ?thesis
      by (simp add: no_indentation_token_def)
  next
    case num
    with assms(1) have "read_number s = Inr s'"
      by (simp add: scan_token_def Let_def)
    then show ?thesis
      using assms(2) by (rule read_number_indentation)
  next
    case ident
    with assms(1) have "s' = read_identifier s"
      by (simp add: scan_token_def Let_def)
    with assms(2) keyword_or_identifier_not_indentation show ?thesis
      by (simp add: read_identifier_eq advance_def add_token_def no_indentation_token_def)
  next
    case str
    with assms(1) have "s' = read_string ?c s"
      by (simp add: scan_token_def Let_def)
    with assms(2) show ?thesis
      by (simp add: read_string_eq advance_def add_token_def no_indentation_token_def)
  next
    case other
    show ?thesis
    proof (cases "punctuation ?c")
      case (Some t)
      with other assms(1) have "s' = advance 1 (add_token t (PyStr [?c]) s)"
        by (simp add: scan_token_def Let_def)
      with assms(2) punctuation_not_indentation [OF Some] show ?thesis
        by (simp add: advance_def add_token_def no_indentation_token_def)
    next
      case None
      with other assms(1) have "s' = read_operator s"
        by (simp add: scan_token_def Let_def)
      with read_operator_indentation [OF assms(2)] show ?thesis
        by simp
    qed
  qed
qed

lemma reachable_indentation:
  "s \<in> reachable src \<Longrightarrow>
   indent_stack s = [0] \<and> list_all no_indentation_token (tokens s)"
proof (induction rule: reachable.induct)
  case start
  show ?case by (simp add: init_def)
next
  case (skip s)
  obtain p c where "skip_whitespace_and_comments s = s\<lparr>position := p, column := c\<rparr>"
    using skip_whitespace_and_comments_frame [of s] by blast
  with skip.IH show ?case by simp
next
  case (scan s s')
  from scan.IH have "list_all no_indentation_token (tokens s)"
    by (rule conjunct2)
  with scan.hyps(3) have "indent_stack s' = indent_stack s
      \<and> list_all no_indentation_token (tokens s')"
    by (rule scan_token_indentation)
  with scan.IH show ?case by simp
next
  case (finish s)
  then show ?case by (simp add: add_token_def no_indentation_token_def)
qed

text \<open>
  C10: in every state of a run the indentation stack is \<open>[0]\<close> and no token emitted so
  far is an Indent or a Dedent token; the lexer that \<^verbatim>\<open>tokenize\<close> ends with is such a
  state, and the token list it returns has no Indent and no Dedent token.
\<close>

theorem indentation_never_used:
  "(s \<in> reachable src \<longrightarrow>
      indent_stack s = [0] \<and> list_all no_indentation_token (tokens s))
   \<and> (tokenize_lexer src = Inr s' \<longrightarrow> s' \<in> reachable src \<and> indent_stack s' = [0])
   \<and> (tokenize src = Inr toks \<longrightarrow> list_all no_indentation_token toks)"
proof (intro conjI impI)
  assume "s \<in> reachable src"
  then have i: "indent_stack s = [0] \<and> list_all no_indentation_token (tokens s)"
    by (rule reachable_indentation)
  from i show "indent_stack s = [0]" by (rule conjunct1)
  from i show "list_all no_indentation_token (tokens s)" by (rule conjunct2)
next
  assume "tokenize_lexer src = Inr s'"
  then show r: "s' \<in> reachable src"
    by (rule tokenize_lexer_reachable)
  then show "indent_stack s' = [0]"
    using reachable_indentation [of s' src] by simp
next
  assume t: "tokenize src = Inr toks"
  then obtain s1 where l: "tokenize_lexer src = Inr s1" and toks: "toks = tokens s1"
    by (cases "tokenize_lexer src") (simp_all add: tokenize_def)
  from l have "s1 \<in> reachable src"
    by (rule tokenize_lexer_reachable)
  then show "list_all no_indentation_token toks"
    using reachable_indentation [of s1 src] toks by simp
qed

text \<open>C10 at the source \<^verbatim>\<open>x = 1\<close>.\<close>

theorem indentation_never_used_witness:
  "tokenize_lexer ''x = 1''
     = Inr \<lparr>source = ''x = 1'', position = 5, line = 1, column = 6,
            tokens = [Token IDENTIFIER (PyStr ''x'') 1 2, Token ASSIGN (PyStr ''='') 1 3,
                      Token INTEGER (PyInt 1) 1 6, Token EOF PyNone 1 6],
            indent_stack = [0], warnings = []\<rparr>
   \<and> \<lparr>source = ''x = 1'', position = 5, line = 1, column = 6,
       tokens = [Token IDENTIFIER (PyStr ''x'') 1 2, Token ASSIGN (PyStr ''='') 1 3,
                 Token INTEGER (PyInt 1) 1 6, Token EOF PyNone 1 6],
       indent_stack = [0], warnings = []\<rparr> \<in> reachable ''x = 1''
   \<and> tokenize ''x = 1''
     = Inr [Token IDENTIFIER (PyStr ''x'') 1 2, Token ASSIGN (PyStr ''='') 1 3,
            Token INTEGER (PyInt 1) 1 6, Token EOF PyNone 1 6]
   \<and> list_all no_indentation_token
       [Token IDENTIFIER (PyStr ''x'') 1 2, Token ASSIGN (PyStr ''='') 1 3,
        Token INTEGER (PyInt 1) 1 6, Token EOF PyNone 1 6]"
proof -
  define S where "S = \<lparr>source = ''x = 1'', position = 5, line = 1, column = 6,
       tokens = [Token IDENTIFIER (PyStr ''x'') 1 2, Token ASSIGN (PyStr ''='') 1 3,
                 Token INTEGER (PyInt 1) 1 6, Token EOF PyNone 1 6],
       indent_stack = [0], warnings = []\<rparr>"
  define T where "T = [Token IDENTIFIER (PyStr ''x'') 1 2, Token ASSIGN (PyStr ''='') 1 3,
        Token INTEGER (PyInt 1) 1 6, Token EOF PyNone 1 6]"
  have h1: "tokenize_lexer ''x = 1'' = Inr S"
    unfolding S_def by code_simp
  have h2: "tokenize ''x = 1'' = Inr T"
    unfolding T_def by code_simp
  note t = indentation_never_used [of S "''x = 1''" S T]
  have c1: "S \<in> reachable ''x = 1''"
    using t h1 by blast
  have c2: "list_all no_indentation_token T"
    using t h2 by blast
  show ?thesis
    using h1 c1 h2 c2 unfolding S_def T_def by (intro conjI)
qed

subsection \<open>C8: the number reader\<close>

text \<open>The text between a position and the end of the second of two runs after it.\<close>

lemma slice_two_runs:
  assumes q: "q = p + length (takeWhile P (drop p xs))" and lt: "q < length xs"
  shows "slice xs p (Suc q + length (takeWhile P (drop (Suc q) xs)))
    = takeWhile P (drop p xs) @ xs ! q # takeWhile P (drop (Suc q) xs)"
proof -
  let ?A = "takeWhile P (drop p xs)"
  let ?B = "drop (Suc q) xs"
  have "drop p xs = ?A @ dropWhile P (drop p xs)"
    by simp
  also have "dropWhile P (drop p xs) = drop (length ?A) (drop p xs)"
    by (rule dropWhile_eq_drop)
  also have "\<dots> = drop q xs"
    using q by (simp add: add.commute)
  also have "\<dots> = xs ! q # ?B"
    using lt by (rule drop_at)
  finally have split: "drop p xs = ?A @ xs ! q # ?B" .
  have "slice xs p (Suc q + length (takeWhile P ?B))
      = take (length ?A + Suc (length (takeWhile P ?B))) (drop p xs)"
    using q by (simp add: slice_def)
  also have "\<dots> = take (length ?A + Suc (length (takeWhile P ?B))) (?A @ xs ! q # ?B)"
    using split by simp
  also have "\<dots> = ?A @ xs ! q # take (length (takeWhile P ?B)) ?B"
    by simp
  also have "take (length (takeWhile P ?B)) ?B = takeWhile P ?B"
    by (rule takeWhile_eq_take [symmetric])
  finally show ?thesis .
qed

text \<open>
  The number reader in closed form: the runs are runs of \<^verbatim>\<open>isdigit\<close> characters, and
  the conversion of the text consumed decides whether a token is added.
\<close>

lemma read_number_eq:
  fixes s :: Lexer
  defines "d1 \<equiv> takeWhile isdigit (drop (position s) (source s))"
  defines "q \<equiv> position s + length d1"
  defines "d2 \<equiv> takeWhile isdigit (drop (Suc q) (source s))"
  shows "read_number s =
     (if q < length (source s) \<and> source s ! q = CHR ''.'' then
        (case py_float (d1 @ CHR ''.'' # d2) of
           Inl e \<Rightarrow> Inl e
         | Inr v \<Rightarrow> Inr (add_token FLOAT v (advance (length d1 + 1 + length d2) s)))
      else
        (case py_int d1 of
           Inl e \<Rightarrow> Inl e
         | Inr v \<Rightarrow> Inr (add_token INTEGER (PyInt v) (advance (length d1) s))))"
proof -
  let ?s1 = "read_digits s"
  let ?s2 = "read_digits (advance 1 ?s1)"
  have rn: "read_number s =
     (if position ?s1 < length (source ?s1) \<and> source ?s1 ! position ?s1 = CHR ''.'' then
        (case py_float (slice (source ?s2) (position s) (position ?s2)) of
           Inl e \<Rightarrow> Inl e
         | Inr v \<Rightarrow> Inr (add_token FLOAT v ?s2))
      else
        (case py_int (slice (source ?s1) (position s) (position ?s1)) of
           Inl e \<Rightarrow> Inl e
         | Inr v \<Rightarrow> Inr (add_token INTEGER (PyInt v) ?s1)))"
    by (simp only: read_number_def Let_def)
  have s1: "?s1 = advance (length d1) s"
    by (simp add: read_digits_eq d1_def)
  have p1: "position ?s1 = q" and src1: "source ?s1 = source s"
    by (simp_all add: s1 advance_def q_def)
  have sl1: "slice (source ?s1) (position s) (position ?s1) = d1"
    unfolding p1 src1 q_def d1_def by (rule slice_takeWhile)
  have "read_digits (advance 1 (advance (length d1) s))
      = advance (length d1 + 1 + length d2) s"
    by (subst read_digits_eq) (simp add: advance_def d2_def q_def)
  then have s2: "?s2 = advance (length d1 + 1 + length d2) s"
    by (simp only: s1)
  have p2: "position ?s2 = Suc q + length d2" and src2: "source ?s2 = source s"
    unfolding s2 by (simp_all add: advance_def q_def)
  show ?thesis
  proof (cases "q < length (source s) \<and> source s ! q = CHR ''.''")
    case False
    then have "\<not> (position ?s1 < length (source ?s1) \<and> source ?s1 ! position ?s1 = CHR ''.'')"
      unfolding p1 src1 .
    then have "read_number s =
        (case py_int (slice (source ?s1) (position s) (position ?s1)) of
           Inl e \<Rightarrow> Inl e
         | Inr v \<Rightarrow> Inr (add_token INTEGER (PyInt v) ?s1))"
      unfolding rn by (rule if_not_P)
    then have "read_number s =
        (case py_int d1 of
           Inl e \<Rightarrow> Inl e
         | Inr v \<Rightarrow> Inr (add_token INTEGER (PyInt v) (advance (length d1) s)))"
      by (simp only: sl1) (simp only: s1)
    with False show ?thesis
      by (simp only: if_False)
  next
    case True
    have "slice (source s) (position s) (Suc q + length d2) = d1 @ source s ! q # d2"
      unfolding d2_def d1_def using q_def [unfolded d1_def] True
      by (intro slice_two_runs) simp_all
    with True have sl: "slice (source ?s2) (position s) (position ?s2) = d1 @ CHR ''.'' # d2"
      unfolding p2 src2 by simp
    from True
    have "position ?s1 < length (source ?s1) \<and> source ?s1 ! position ?s1 = CHR ''.''"
      unfolding p1 src1 .
    then have "read_number s =
        (case py_float (slice (source ?s2) (position s) (position ?s2)) of
           Inl e \<Rightarrow> Inl e | Inr v \<Rightarrow> Inr (add_token FLOAT v ?s2))"
      unfolding rn by (rule if_P)
    then have "read_number s =
        (case py_float (d1 @ CHR ''.'' # d2) of
           Inl e \<Rightarrow> Inl e
         | Inr v \<Rightarrow> Inr (add_token FLOAT v (advance (length d1 + 1 + length d2) s)))"
      by (simp only: sl) (simp only: s2)
    with True show ?thesis
      by simp
  qed
qed

text \<open>
  Sources the number reader converts without an error: no character is one of the
  superscript digits, and the source is no longer than the longest numeral \<^verbatim>\<open>int()\<close>
  accepts, so that no run of digits is.
\<close>

definition convertible_digits :: "string \<Rightarrow> bool" where
  "convertible_digits src =
     (list_all (\<lambda>c. cp c \<noteq> 178 \<and> cp c \<noteq> 179 \<and> cp c \<noteq> 185) src
      \<and> length src \<le> int_max_str_digits)"

lemma digit_run_decimal:
  assumes "convertible_digits xs"
  shows "takeWhile isdigit (drop p xs) = takeWhile isdecimal (drop p xs)"
proof (rule takeWhile_cong)
  show "drop p xs = drop p xs" ..
next
  fix c
  assume "c \<in> set (drop p xs)"
  then have "c \<in> set xs"
    by (rule in_set_dropD)
  with assms show "isdigit c = isdecimal c"
    by (auto simp: convertible_digits_def list_all_iff isdigit_def)
qed

lemma digit_run_short:
  assumes "convertible_digits xs"
  shows "length (takeWhile isdecimal (drop p xs)) \<le> int_max_str_digits"
proof -
  have "length (takeWhile isdecimal (drop p xs)) \<le> length (drop p xs)"
    by (rule length_takeWhile_le)
  also have "\<dots> \<le> length xs"
    by simp
  finally show ?thesis
    using assms by (simp add: convertible_digits_def)
qed

text \<open>
  On such a source the number reader is what the specification describes: the maximal
  run of decimal digits gives an Integer token with its decimal value, or, when a dot
  follows, a Float token for the run, the dot and the next maximal run.
\<close>

lemma read_number_decimal:
  fixes s :: Lexer
  assumes "position s < length (source s)" and "isdigit (source s ! position s)"
    and "convertible_digits (source s)"
  defines "d1 \<equiv> takeWhile isdecimal (drop (position s) (source s))"
  defines "q \<equiv> position s + length d1"
  defines "d2 \<equiv> takeWhile isdecimal (drop (Suc q) (source s))"
  shows "d1 \<noteq> [] \<and> read_number s =
     Inr (if q < length (source s) \<and> source s ! q = CHR ''.''
          then add_token FLOAT (PyFloat (d1 @ CHR ''.'' # d2))
                 (advance (length d1 + 1 + length d2) s)
          else add_token INTEGER (PyInt (decimal_value d1)) (advance (length d1) s))"
proof -
  have e1: "takeWhile isdigit (drop (position s) (source s)) = d1"
    unfolding d1_def using assms(3) by (rule digit_run_decimal)
  have e2: "takeWhile isdigit (drop (Suc q) (source s)) = d2"
    unfolding d2_def using assms(3) by (rule digit_run_decimal)
  have "0 < length (takeWhile isdigit (drop (position s) (source s)))"
    using assms(1,2) by (rule takeWhile_first)
  then have ne: "d1 \<noteq> []"
    by (simp add: e1)
  have dec1: "list_all isdecimal d1"
    unfolding d1_def list_all_iff by (auto dest: set_takeWhileD)
  have dec2: "list_all isdecimal d2"
    unfolding d2_def list_all_iff by (auto dest: set_takeWhileD)
  have "length d1 \<le> int_max_str_digits"
    unfolding d1_def using assms(3) by (rule digit_run_short)
  with ne dec1 have i: "py_int d1 = Inr (decimal_value d1)"
    by (simp add: py_int_def)
  have f: "py_float (d1 @ CHR ''.'' # d2) = Inr (PyFloat (d1 @ CHR ''.'' # d2))"
    using dec1 dec2 by (auto simp: py_float_def list_all_iff)
  have "read_number s =
     (if q < length (source s) \<and> source s ! q = CHR ''.'' then
        (case py_float (d1 @ CHR ''.'' # d2) of
           Inl e \<Rightarrow> Inl e
         | Inr v \<Rightarrow> Inr (add_token FLOAT v (advance (length d1 + 1 + length d2) s)))
      else
        (case py_int d1 of
           Inl e \<Rightarrow> Inl e
         | Inr v \<Rightarrow> Inr (add_token INTEGER (PyInt v) (advance (length d1) s))))"
    using read_number_eq [of s] unfolding e1 q_def [symmetric] e2 .
  with ne show ?thesis
    by (simp add: i f)
qed

text \<open>
  C8: the number reader consumes a maximal run of decimal digits and emits an Integer
  token with the value of the run, or a Float token when a dot follows. The code scans
  with \<^verbatim>\<open>isdigit\<close>, which also holds for the superscript digits: for the source of the
  two characters \<^verbatim>\<open>1\<close> and superscript two the run of decimal digits is \<^verbatim>\<open>1\<close> and no
  dot follows, so C8 has an Integer token of value 1, while the reader consumes both
  characters and \<^verbatim>\<open>int()\<close> raises \<^verbatim>\<open>ValueError\<close>; after a dot \<^verbatim>\<open>float()\<close> raises
  likewise.
\<close>

theorem read_number_superscript_raises:
  "takeWhile isdecimal [CHR ''1'', CHR 0xB2] = ''1''
   \<and> read_digits (init [CHR ''1'', CHR 0xB2])
     = \<lparr>source = [CHR ''1'', CHR 0xB2], position = 2, line = 1, column = 3, tokens = [],
        indent_stack = [0], warnings = []\<rparr>
   \<and> read_number (init [CHR ''1'', CHR 0xB2]) = Inl ValueError
   \<and> read_number (init [CHR ''1'', CHR ''.'', CHR 0xB2]) = Inl ValueError
   \<and> tokenize [CHR ''1'', CHR 0xB2] = Inl ValueError"
  by code_simp

subsection \<open>C5: no input makes tokenize raise\<close>

text \<open>
  A character none of the readers recognizes: the dispatch sends it to the operator
  reader, and neither table of the operator reader has it. The exclamation mark is in
  no one-character table and is recognized only with an equals sign after it.
\<close>

definition unrecognized :: "Lexer \<Rightarrow> bool" where
  "unrecognized s =
     (let c = source s ! position s in
      c \<noteq> CHR 0x0A \<and> \<not> isdigit c \<and> \<not> isalpha c \<and> c \<noteq> CHR ''_'' \<and> c \<noteq> CHR 0x22
      \<and> c \<noteq> CHR 0x27 \<and> punctuation c = None \<and> one_char_operator c = None
      \<and> \<not> (c = CHR ''!'' \<and> position s + 1 < length (source s)
            \<and> source s ! (position s + 1) = CHR ''=''))"

lemma unrecognized_character_skipped:
  assumes "position s < length (source s)" and "unrecognized s"
  shows "scan_token s
    = Inr (s\<lparr>position := position s + 1, column := column s + 1,
              warnings := warnings s @ [(source s ! position s, line s, column s)]\<rparr>)"
proof -
  let ?c = "source s ! position s"
  have c: "?c \<noteq> CHR 0x0A" "\<not> isdigit ?c" "\<not> isalpha ?c" "?c \<noteq> CHR ''_''" "?c \<noteq> CHR 0x22"
    "?c \<noteq> CHR 0x27" "punctuation ?c = None" "one_char_operator ?c = None"
    using assms(2) by (simp_all add: unrecognized_def Let_def)
  have one: "read_one_char_operator s
      = s\<lparr>position := position s + 1, column := column s + 1,
           warnings := warnings s @ [(?c, line s, column s)]\<rparr>"
    using c(8) by (simp add: read_one_char_operator_def Let_def advance_def)
  have "read_operator s = read_one_char_operator s"
  proof (cases "position s + 1 < length (source s)")
    case False
    then show ?thesis
      by (simp add: read_operator_def)
  next
    case True
    have "two_char_operator [?c, source s ! (position s + 1)] = None"
      using c(8) assms(2) True
      by (auto simp: two_char_operator_def one_char_operator_def unrecognized_def Let_def
            split: if_splits)
    moreover have "slice (source s) (position s) (position s + 2)
        = [?c, source s ! (position s + 1)]"
      using True by (rule slice_two)
    ultimately have "two_char_operator (slice (source s) (position s) (position s + 2)) = None"
      by (simp only:)
    with True show ?thesis
      unfolding read_operator_def Let_def by simp
  qed
  with c one show ?thesis
    by (simp add: scan_token_def Let_def)
qed

text \<open>
  C5: \<^verbatim>\<open>tokenize\<close> never raises, and a character no reader recognizes is skipped with
  one warning. The second half is what the code does: for the source of the two
  characters \<^verbatim>\<open>@\<close> and superscript two, the pass on \<^verbatim>\<open>@\<close> adds no token, logs one
  warning and moves the cursor by one. The first half fails on the next pass: the
  superscript two goes to the number reader and \<^verbatim>\<open>int()\<close> raises \<^verbatim>\<open>ValueError\<close>.
\<close>

theorem warning_then_value_error:
  "scan_token (init [CHR ''@'', CHR 0xB2])
     = Inr \<lparr>source = [CHR ''@'', CHR 0xB2], position = 1, line = 1, column = 2, tokens = [],
            indent_stack = [0], warnings = [(CHR ''@'', 1, 1)]\<rparr>
   \<and> tokenize [CHR ''@'', CHR 0xB2] = Inl ValueError"
  by code_simp

subsection \<open>C1: the result ends with one end-of-input token\<close>

text \<open>The kinds of token a pass of the dispatch can emit.\<close>

definition scanned_kind :: "TokenType \<Rightarrow> bool" where
  "scanned_kind t = (t \<noteq> INDENT \<and> t \<noteq> DEDENT \<and> t \<noteq> EOF)"

lemma KEYWORDS_kind: "KEYWORDS v = Some t \<Longrightarrow> scanned_kind t"
  unfolding KEYWORDS_def scanned_kind_def by (drule map_of_SomeD) auto

lemma keyword_or_identifier_kind: "scanned_kind (keyword_or_identifier v)"
  using KEYWORDS_kind [of v]
  by (cases "KEYWORDS v") (simp_all add: keyword_or_identifier_def scanned_kind_def)

lemma punctuation_kind: "punctuation c = Some t \<Longrightarrow> scanned_kind t"
  by (auto simp: punctuation_def scanned_kind_def split: if_splits)

lemma one_char_operator_kind: "one_char_operator c = Some t \<Longrightarrow> scanned_kind t"
  by (auto simp: one_char_operator_def scanned_kind_def split: if_splits)

lemma two_char_operator_kind: "two_char_operator c = Some t \<Longrightarrow> scanned_kind t"
  by (auto simp: two_char_operator_def scanned_kind_def split: if_splits)

text \<open>
  A pass changes the token list by appending at most one token, of a scanned kind, and
  leaves the source and the indentation stack alone.
\<close>

definition appends :: "Lexer \<Rightarrow> Lexer \<Rightarrow> bool" where
  "appends s s' =
     (source s' = source s \<and> indent_stack s' = indent_stack s
      \<and> (tokens s' = tokens s
          \<or> (\<exists>t. tokens s' = tokens s @ [t] \<and> scanned_kind (tok_type t))))"

lemma appends_add_token:
  "scanned_kind ty \<Longrightarrow> source s' = source s \<Longrightarrow> indent_stack s' = indent_stack s \<Longrightarrow>
   tokens s' = tokens s \<Longrightarrow> appends s (add_token ty v s')"
  by (simp add: appends_def add_token_def)

lemma read_operator_appends: "appends s (read_operator s)"
proof -
  have one: "appends s (read_one_char_operator s)"
  proof (cases "one_char_operator (source s ! position s)")
    case None
    then show ?thesis
      by (simp add: read_one_char_operator_def Let_def advance_def appends_def)
  next
    case (Some t)
    with one_char_operator_kind [OF Some] show ?thesis
      by (simp add: read_one_char_operator_def Let_def advance_def add_token_def appends_def)
  qed
  show ?thesis
  proof (cases "position s + 1 < length (source s)")
    case False
    with one show ?thesis
      by (simp add: read_operator_def)
  next
    case True
    show ?thesis
    proof (cases "two_char_operator (slice (source s) (position s) (position s + 2))")
      case None
      with True one show ?thesis
        by (simp add: read_operator_def Let_def)
    next
      case (Some t)
      with True two_char_operator_kind [OF Some] show ?thesis
        by (simp add: read_operator_def Let_def advance_def add_token_def appends_def)
    qed
  qed
qed

lemma read_number_appends:
  assumes "read_number s = Inr s'"
  shows "appends s s'"
  using assms
  by (auto simp: read_number_def read_digits_eq Let_def advance_def add_token_def
        appends_def scanned_kind_def split: if_splits sum.splits)

lemma scan_token_appends:
  assumes "scan_token s = Inr s'"
  shows "appends s s'"
proof -
  let ?c = "source s ! position s"
  consider (nl) "?c = CHR 0x0A"
    | (num) "?c \<noteq> CHR 0x0A" "isdigit ?c"
    | (ident) "?c \<noteq> CHR 0x0A" "\<not> isdigit ?c" "isalpha ?c \<or> ?c = CHR ''_''"
    | (str) "?c \<noteq> CHR 0x0A" "\<not> isdigit ?c" "\<not> (isalpha ?c \<or> ?c = CHR ''_'')"
        "?c = CHR 0x22 \<or> ?c = CHR 0x27"
    | (other) "?c \<noteq> CHR 0x0A" "\<not> isdigit ?c" "\<not> (isalpha ?c \<or> ?c = CHR ''_'')"
        "\<not> (?c = CHR 0x22 \<or> ?c = CHR 0x27)"
    by blast
  then show ?thesis
  proof cases
    case nl
    with assms have "s' = s\<lparr>position := position s + 1, line := line s + 1, column := 1,
        tokens := tokens s @ [Token NEWLINE (PyStr [CHR 0x0A]) (line s) 1]\<rparr>"
      by (simp add: scan_token_def Let_def)
    then show ?thesis
      by (simp add: appends_def scanned_kind_def)
  next
    case num
    with assms have "read_number s = Inr s'"
      by (simp add: scan_token_def Let_def)
    then show ?thesis
      by (rule read_number_appends)
  next
    case ident
    with assms have "s' = read_identifier s"
      by (simp add: scan_token_def Let_def)
    with keyword_or_identifier_kind show ?thesis
      by (simp add: read_identifier_eq advance_def add_token_def appends_def)
  next
    case str
    with assms have "s' = read_string ?c s"
      by (simp add: scan_token_def Let_def)
    then show ?thesis
      by (simp add: read_string_eq advance_def add_token_def appends_def scanned_kind_def)
  next
    case other
    show ?thesis
    proof (cases "punctuation ?c")
      case (Some t)
      with other assms have "s' = advance 1 (add_token t (PyStr [?c]) s)"
        by (simp add: scan_token_def Let_def)
      with punctuation_kind [OF Some] show ?thesis
        by (simp add: advance_def add_token_def appends_def)
    next
      case None
      with other assms have "s' = read_operator s"
        by (simp add: scan_token_def Let_def)
      with read_operator_appends [of s] show ?thesis
        by simp
    qed
  qed
qed

text \<open>The loop adds no end-of-input token; \<^verbatim>\<open>tokenize\<close> adds one after the loop.\<close>

definition not_eof :: "Token \<Rightarrow> bool" where
  "not_eof t = (tok_type t \<noteq> EOF)"

lemma appends_not_eof:
  "appends s s' \<Longrightarrow> list_all not_eof (tokens s) \<Longrightarrow> list_all not_eof (tokens s')"
  by (auto simp: appends_def scanned_kind_def not_eof_def)

lemma tokenize_loop_not_eof:
  "tokenize_loop s = Inr s' \<Longrightarrow> list_all not_eof (tokens s) \<Longrightarrow>
   list_all not_eof (tokens s')"
proof (induction s rule: tokenize_loop.induct)
  case (1 s)
  show ?case
  proof (cases "position s < length (source s)")
    case False
    then have "tokenize_loop s = Inr s"
      by (rule tokenize_loop_end)
    with "1.prems" show ?thesis
      by simp
  next
    case True
    let ?s1 = "skip_whitespace_and_comments s"
    note u = tokenize_loop_unfold [OF True]
    obtain p c where "?s1 = s\<lparr>position := p, column := c\<rparr>"
      using skip_whitespace_and_comments_frame [of s] by blast
    then have t1: "tokens ?s1 = tokens s"
      by simp
    show ?thesis
    proof (cases "length (source ?s1) \<le> position ?s1")
      case stop: True
      then have "tokenize_loop s = Inr ?s1"
        by (simp only: u if_True)
      with "1.prems" t1 show ?thesis
        by simp
    next
      case go: False
      then have u2: "tokenize_loop s =
          (case scan_token ?s1 of Inl e \<Rightarrow> Inl e | Inr s2 \<Rightarrow> tokenize_loop s2)"
        by (simp only: u if_False)
      show ?thesis
      proof (cases "scan_token ?s1")
        case (Inl e)
        then have "tokenize_loop s = Inl e"
          by (simp only: u2 sum.case)
        with "1.prems"(1) show ?thesis
          by simp
      next
        case (Inr s2)
        then have "tokenize_loop s = tokenize_loop s2"
          by (simp only: u2 sum.case)
        with "1.prems"(1) have l: "tokenize_loop s2 = Inr s'"
          by simp
        have a: "appends ?s1 s2"
          using Inr by (rule scan_token_appends)
        have "list_all not_eof (tokens ?s1)"
          using "1.prems"(2) t1 by simp
        with a have n2: "list_all not_eof (tokens s2)"
          by (rule appends_not_eof)
        show ?thesis
          using True refl go Inr l n2 by (rule "1.IH")
      qed
    qed
  qed
qed

lemma tokenize_result_shape:
  assumes "tokenize src = Inr toks"
  shows "\<exists>body l c. toks = body @ [Token EOF PyNone l c] \<and> list_all not_eof body"
proof (cases "tokenize_loop (init src)")
  case (Inl e)
  with assms show ?thesis
    by (simp add: tokenize_def tokenize_lexer_def)
next
  case (Inr s1)
  with assms have toks: "toks = tokens s1 @ [Token EOF PyNone (line s1) (column s1)]"
    by (simp add: tokenize_def tokenize_lexer_def add_token_def)
  have "list_all not_eof (tokens s1)"
    using Inr by (rule tokenize_loop_not_eof) (simp add: init_def)
  with toks show ?thesis
    by (intro exI [of _ "tokens s1"] exI [of _ "line s1"] exI [of _ "column s1"]) simp
qed

text \<open>
  Whenever \<^verbatim>\<open>tokenize\<close> returns, the list it returns ends with an end-of-input token
  without a value, and holds no other end-of-input token.
\<close>

lemma tokenize_ends_with_one_EOF:
  assumes "tokenize src = Inr toks"
  shows "toks \<noteq> [] \<and> tok_type (last toks) = EOF \<and> tok_value (last toks) = PyNone
    \<and> length (filter (\<lambda>t. tok_type t = EOF) toks) = 1"
proof -
  obtain body l c where "toks = body @ [Token EOF PyNone l c]" "list_all not_eof body"
    using tokenize_result_shape [OF assms] by blast
  then show ?thesis
    by (simp add: list_all_iff not_eof_def filter_empty_conv)
qed

text \<open>
  The conversion in the number reader is the only place where a pass can raise: on a
  source with convertible digits every pass returns, and so does the loop.
\<close>

lemma scan_token_returns:
  assumes "position s < length (source s)" and "convertible_digits (source s)"
  shows "\<exists>s'. scan_token s = Inr s'"
proof (cases "source s ! position s \<noteq> CHR 0x0A \<and> isdigit (source s ! position s)")
  case True
  then have "scan_token s = read_number s"
    by (simp add: scan_token_def Let_def)
  with read_number_decimal [OF assms(1) _ assms(2)] True show ?thesis
    by simp
next
  case False
  then show ?thesis
    by (auto simp: scan_token_def Let_def split: option.splits)
qed

lemma tokenize_loop_returns:
  "convertible_digits (source s) \<Longrightarrow> \<exists>s'. tokenize_loop s = Inr s'"
proof (induction s rule: tokenize_loop.induct)
  case (1 s)
  show ?case
  proof (cases "position s < length (source s)")
    case False
    then have "tokenize_loop s = Inr s"
      by (rule tokenize_loop_end)
    then show ?thesis
      by simp
  next
    case True
    let ?s1 = "skip_whitespace_and_comments s"
    note u = tokenize_loop_unfold [OF True]
    obtain p c where "?s1 = s\<lparr>position := p, column := c\<rparr>"
      using skip_whitespace_and_comments_frame [of s] by blast
    then have src1: "source ?s1 = source s"
      by simp
    show ?thesis
    proof (cases "length (source ?s1) \<le> position ?s1")
      case stop: True
      then have "tokenize_loop s = Inr ?s1"
        by (simp only: u if_True)
      then show ?thesis
        by simp
    next
      case go: False
      then have u2: "tokenize_loop s =
          (case scan_token ?s1 of Inl e \<Rightarrow> Inl e | Inr s2 \<Rightarrow> tokenize_loop s2)"
        by (simp only: u if_False)
      from go have lt: "position ?s1 < length (source ?s1)"
        by simp
      have cd: "convertible_digits (source ?s1)"
        using "1.prems" by (simp only: src1)
      obtain s2 where s2: "scan_token ?s1 = Inr s2"
        using scan_token_returns [OF lt cd] by blast
      then have eq: "tokenize_loop s = tokenize_loop s2"
        by (simp only: u2 sum.case)
      have "source s2 = source ?s1"
        using scan_token_progress [OF lt s2] by simp
      with "1.prems" have "convertible_digits (source s2)"
        by (simp only: src1)
      with True refl go s2 have "\<exists>s'. tokenize_loop s2 = Inr s'"
        by (rule "1.IH")
      with eq show ?thesis
        by simp
    qed
  qed
qed

text \<open>
  On a source with convertible digits \<^verbatim>\<open>tokenize\<close> returns, and what it returns ends
  with the one end-of-input token.
\<close>

lemma tokenize_returns:
  assumes "convertible_digits src"
  shows "\<exists>toks. tokenize src = Inr toks \<and> toks \<noteq> [] \<and> tok_type (last toks) = EOF
    \<and> tok_value (last toks) = PyNone
    \<and> length (filter (\<lambda>t. tok_type t = EOF) toks) = 1"
proof -
  have "convertible_digits (source (init src))"
    using assms by (simp add: init_def)
  then obtain s' where "tokenize_loop (init src) = Inr s'"
    using tokenize_loop_returns by blast
  then have "tokenize src = Inr (tokens (add_token EOF PyNone s'))"
    by (simp add: tokenize_def tokenize_lexer_def)
  with tokenize_ends_with_one_EOF [of src] show ?thesis
    by simp
qed

text \<open>
  C1: for every source \<^verbatim>\<open>tokenize\<close> returns a token list that ends with the one
  end-of-input token it holds. The code does not: the dispatch sends every character for
  which \<^verbatim>\<open>isdigit\<close> holds to the number reader, which scans a run of such characters
  and passes it to \<^verbatim>\<open>int()\<close>; the superscript two U+00B2 is such a character and is not
  a digit of a decimal numeral, so for the source that is this one character the call
  raises \<^verbatim>\<open>ValueError\<close> and \<^verbatim>\<open>tokenize\<close> returns nothing.
\<close>

theorem superscript_digit_raises:
  "isdigit (CHR 0xB2) \<and> \<not> isdecimal (CHR 0xB2) \<and> py_int [CHR 0xB2] = Inl ValueError
   \<and> tokenize [CHR 0xB2] = Inl ValueError"
  by code_simp

subsection \<open>C4: line and column follow the characters consumed\<close>

text \<open>
  The counters C4 expects after the first \<open>p\<close> characters of the source have been
  consumed: the line is one more than the number of newlines among them, the column one
  more than the number of characters after the last of these newlines.
\<close>

definition expected_line :: "string \<Rightarrow> nat \<Rightarrow> int" where
  "expected_line src p = 1 + int (length (filter (\<lambda>c. c = CHR 0x0A) (take p src)))"

definition expected_column :: "string \<Rightarrow> nat \<Rightarrow> int" where
  "expected_column src p =
     1 + int (length (takeWhile (\<lambda>c. c \<noteq> CHR 0x0A) (rev (take p src))))"

definition counters_consistent :: "Lexer \<Rightarrow> bool" where
  "counters_consistent s =
     (line s = expected_line (source s) (position s)
      \<and> column s = expected_column (source s) (position s))"

lemma init_consistent: "counters_consistent (init src)"
  by (simp add: counters_consistent_def init_def expected_line_def expected_column_def)

text \<open>
  The paths that move the column with the position keep the counters right as long as
  they consume no newline.
\<close>

lemma advance_consistent:
  assumes "counters_consistent s" and "position s + n \<le> length (source s)"
    and "CHR 0x0A \<notin> set (take n (drop (position s) (source s)))"
  shows "counters_consistent (advance n s)"
proof -
  let ?A = "take (position s) (source s)"
  let ?B = "take n (drop (position s) (source s))"
  have t: "take (position s + n) (source s) = ?A @ ?B"
    by (rule take_add)
  have len: "length ?B = n"
    using assms(2) by simp
  have f: "filter (\<lambda>c. c = CHR 0x0A) ?B = []"
    using assms(3) by (auto simp: filter_empty_conv)
  have "takeWhile (\<lambda>c. c \<noteq> CHR 0x0A) (rev ?B @ rev ?A)
      = rev ?B @ takeWhile (\<lambda>c. c \<noteq> CHR 0x0A) (rev ?A)"
    using assms(3) by (intro takeWhile_append2) auto
  then have c: "length (takeWhile (\<lambda>c. c \<noteq> CHR 0x0A) (rev (take (position s + n) (source s))))
      = n + length (takeWhile (\<lambda>c. c \<noteq> CHR 0x0A) (rev ?A))"
    using len unfolding t by simp
  have l: "length (filter (\<lambda>c. c = CHR 0x0A) (take (position s + n) (source s)))
      = length (filter (\<lambda>c. c = CHR 0x0A) ?A)"
    using f unfolding t by simp
  from assms(1) show ?thesis
    by (simp add: counters_consistent_def expected_line_def expected_column_def advance_def
          c l)
qed

text \<open>So does the newline branch of the main loop.\<close>

lemma newline_consistent:
  assumes "counters_consistent s" and "position s < length (source s)"
    and "source s ! position s = CHR 0x0A" and "scan_token s = Inr s'"
  shows "counters_consistent s'"
proof -
  have s': "s' = s\<lparr>position := position s + 1, line := line s + 1, column := 1,
      tokens := tokens s @ [Token NEWLINE (PyStr [CHR 0x0A]) (line s) 1]\<rparr>"
    using assms(3,4) by (simp add: scan_token_def Let_def)
  have "take (Suc (position s)) (source s) = take (position s) (source s) @ [CHR 0x0A]"
    using assms(2,3) by (simp add: take_Suc_conv_app_nth)
  with assms(1) show ?thesis
    by (simp add: s' counters_consistent_def expected_line_def expected_column_def)
qed

text \<open>
  C4: after every character consumed the counters are the expected ones. The code
  breaks this in the comment loop, which moves the position and not the column: after
  the comment of the source \<^verbatim>\<open>#a\<close> the cursor is at position 2 and column 1, where
  column 3 is expected, and the end-of-input token is recorded at column 1. It breaks it
  in the string reader too, which counts a newline inside a literal as one more column
  and leaves the line alone: after the three characters quote, newline, quote the
  cursor is at line 1, where line 2 is expected.
\<close>

theorem comment_skipping_loses_column:
  "skip_whitespace_and_comments (init ''#a'')
     = \<lparr>source = ''#a'', position = 2, line = 1, column = 1, tokens = [],
        indent_stack = [0], warnings = []\<rparr>
   \<and> expected_column ''#a'' 2 = 3
   \<and> \<not> counters_consistent (skip_whitespace_and_comments (init ''#a''))
   \<and> tokenize ''#a'' = Inr [Token EOF PyNone 1 1]
   \<and> read_string (CHR 0x22) (init [CHR 0x22, CHR 0x0A, CHR 0x22])
     = \<lparr>source = [CHR 0x22, CHR 0x0A, CHR 0x22], position = 3, line = 1, column = 4,
        tokens = [Token STRING (PyStr [CHR 0x0A]) 1 4], indent_stack = [0], warnings = []\<rparr>
   \<and> expected_line [CHR 0x22, CHR 0x0A, CHR 0x22] 3 = 2
   \<and> \<not> counters_consistent (read_string (CHR 0x22) (init [CHR 0x22, CHR 0x0A, CHR 0x22]))"
  by code_simp

end
